theory Spec2Isabelle
  imports Main "HOL-Library.AList"
begin

section \<open>Shallow embedding of \<open>pkg/compiler/compiler.go\<close>\<close>

subsection \<open>Positions, diagnostics and outcomes\<close>

text \<open>
  \<open>ast.Pos\<close> is a source position. Every error of the compiler is a message sent to the
  error handler together with a position; \<open>fmt.Errorf\<close> values are modelled by their
  formatted message.
\<close>

record Pos =
  File :: string
  Off :: int
  Line :: int
  Col :: int

datatype error = Errorf string

text \<open>
  A Go call either returns (possibly with an \<open>error\<close> value) or panics. The state that the
  call has mutated through pointers and maps is part of the first two outcomes; a panic
  unwinds the whole compilation.
\<close>

datatype ('a, 's) outcome = Done 'a 's | Failed error 's | Panicked

subsection \<open>Formatting\<close>

text \<open>\<open>%v\<close> of a non-negative \<open>int\<close>: its decimal digits.\<close>

definition digit :: "nat \<Rightarrow> char" where
  "digit n = ''0123456789'' ! n"

fun itoa :: "nat \<Rightarrow> string" where
  "itoa n = (if n < 10 then [digit n] else itoa (n div 10) @ [digit (n mod 10)])"

subsection \<open>Flag groups\<close>

text \<open>
  \<open>ast.IntFlags\<close> and \<open>ast.StrFlags\<close> are the two instances of the type parameter \<open>F\<close> of
  \<open>recurFlattenFlags\<close>: a position, a name and the member list \<open>Values\<close>, read by
  \<open>GetValues\<close> and replaced by \<open>SetValues\<close>. The members are \<open>ast.Int\<close> or \<open>ast.String\<close>
  nodes; the only thing flattening asks of a member is its \<open>GetName()\<close>, so the member
  type is a parameter \<open>'v\<close> and \<open>GetName\<close> a function \<open>gn\<close>.

  \<open>allFlags\<close> is a Go map from names to pointers to flag groups. It is modelled as an
  association list read with \<open>map_of\<close>; no key is ever added or removed while flattening.
  In both call sites of \<open>recurFlattenFlags\<close> the argument \<open>flags\<close> is the object stored
  under \<open>name\<close> in \<open>allFlags\<close>, so \<open>flags.SetValues(values)\<close> is a write to the entry
  \<open>name\<close> of the map. The visited set is the Go map \<open>visitedFlags\<close>, of which only the
  keys are ever read.
\<close>

record 'v Flags =
  FPos :: Pos
  FName :: string
  Values :: "'v list"

type_synonym 'v allFlags = "(string \<times> 'v Flags) list"

type_synonym 'v fstate = "'v allFlags \<times> string set"

definition SetValues :: "string \<Rightarrow> 'v list \<Rightarrow> 'v allFlags \<Rightarrow> 'v allFlags" where
  "SetValues name vals allFlags = AList.map_entry name (\<lambda>f. f\<lparr>Values := vals\<rparr>) allFlags"

definition usedTwiceMsg :: "string \<Rightarrow> string" where
  "usedTwiceMsg name = ''flags '' @ name @ '' used twice or circular dependency on '' @ name"

definition tooManyMsg :: "string \<Rightarrow> nat \<Rightarrow> string" where
  "tooManyMsg name n = name @ '' has more than 100000 values '' @ itoa n"

text \<open>
  \<open>recurFlattenFlags\<close> and its loop over \<open>flags.GetValues()\<close>. The loop function carries the
  local slice \<open>values\<close>. \<open>allFlags[flag.GetName()].GetValues()\<close> after the recursive call
  would dereference a nil pointer if the key were gone; that is the \<open>Panicked\<close> branch.
\<close>

function recurFlattenFlags :: "('v \<Rightarrow> string) \<Rightarrow> string \<Rightarrow> 'v Flags \<Rightarrow> 'v fstate \<Rightarrow> (unit, 'v fstate) outcome"
  and flattenValues :: "('v \<Rightarrow> string) \<Rightarrow> 'v list \<Rightarrow> 'v list \<Rightarrow> 'v fstate \<Rightarrow> ('v list, 'v fstate) outcome"
where
  "recurFlattenFlags gn name flags (allFlags, visited) =
    (if name \<in> visited
     then Failed (Errorf (usedTwiceMsg name)) (allFlags, visited)
     else case flattenValues gn (Values flags) [] (allFlags, insert name visited) of
        Failed e st \<Rightarrow> Failed e st
      | Panicked \<Rightarrow> Panicked
      | Done values (allFlags', visited') \<Rightarrow>
          if length values > 100000
          then Failed (Errorf (tooManyMsg name (length values))) (allFlags', visited')
          else Done () (SetValues name values allFlags', visited'))"
| "flattenValues gn [] values st = Done values st"
| "flattenValues gn (flag # rest) values (allFlags, visited) =
    (case map_of allFlags (gn flag) of
       Some f \<Rightarrow>
         (case recurFlattenFlags gn (gn flag) f (allFlags, visited) of
            Failed e st \<Rightarrow> Failed e st
          | Panicked \<Rightarrow> Panicked
          | Done u (allFlags', visited') \<Rightarrow>
              (case map_of allFlags' (gn flag) of
                 None \<Rightarrow> Panicked
               | Some f' \<Rightarrow> flattenValues gn rest (values @ Values f') (allFlags', visited')))
     | None \<Rightarrow> flattenValues gn rest (values @ [flag]) (allFlags, visited))"
  by pat_completeness auto


text \<open>
  The part of the state that a call of \<open>recurFlattenFlags\<close> leaves alone: the keys of
  \<open>allFlags\<close>, the names already visited, and every group that is visited neither before
  nor after the call.
\<close>

definition frame :: "'v allFlags \<Rightarrow> string set \<Rightarrow> 'v allFlags \<Rightarrow> string set \<Rightarrow> bool" where
  "frame al V al' V' \<longleftrightarrow>
     map fst al' = map fst al \<and> V \<subseteq> V' \<and> (\<forall>n. n \<in> V \<or> n \<notin> V' \<longrightarrow> map_of al' n = map_of al n)"

subsection \<open>Flag members\<close>

text \<open>
  \<open>ast.Int\<close>, as far as flattening reads it: a literal carries a \<open>Value\<close> and the empty
  \<open>Ident\<close>, a reference to a constant or to a flag group carries the \<open>Ident\<close>.
  \<open>GetName\<close> of an \<open>ast.Int\<close> is its \<open>Ident\<close>.
\<close>

record ast_Int =
  Value :: nat
  Ident :: string


subsection \<open>Example descriptions\<close>

definition lit :: "nat \<Rightarrow> ast_Int" where
  "lit n = \<lparr>Value = n, Ident = []\<rparr>"

definition ref :: "string \<Rightarrow> ast_Int" where
  "ref s = \<lparr>Value = 0, Ident = s\<rparr>"

definition grp :: "string \<Rightarrow> 'v list \<Rightarrow> string \<times> 'v Flags" where
  "grp name vs = (name, \<lparr>FPos = \<lparr>File = ''f'', Off = 0, Line = 0, Col = 0\<rparr>, FName = name, Values = vs\<rparr>)"


subsection \<open>References between flag groups\<close>

text \<open>
  \<open>refs\<close> is the reference graph of a table of flag groups: \<open>g\<close> refers to \<open>h\<close> when a
  member of \<open>g\<close> carries the name of the flag group \<open>h\<close>. A group refers to itself
  directly or transitively when it reaches itself in the transitive closure.
\<close>

definition refs :: "('v \<Rightarrow> string) \<Rightarrow> 'v allFlags \<Rightarrow> (string \<times> string) set" where
  "refs gn allFlags =
     {(g, h). \<exists>f m. map_of allFlags g = Some f \<and> m \<in> set (Values f) \<and> gn m = h \<and>
        map_of allFlags h \<noteq> None}"

text \<open>
  The expansion the specification describes, on the table as it is before flattening:
  \<open>expands gn al name vs ns\<close> holds when \<open>vs\<close> lists, in order, the leaf members reached
  from the group \<open>name\<close> through member references (a member is a leaf when its name is
  not the name of a flag group), and \<open>ns\<close> lists the flag groups met on the way, \<open>name\<close>
  first, once for every path that leads to them. The length of \<open>vs\<close> is the sum of the
  leaf counts reachable from \<open>name\<close>. Only a group below which the references do not
  loop has an expansion.
\<close>

inductive expands :: "('v \<Rightarrow> string) \<Rightarrow> 'v allFlags \<Rightarrow> string \<Rightarrow> 'v list \<Rightarrow> string list \<Rightarrow> bool"
  and expands_members :: "('v \<Rightarrow> string) \<Rightarrow> 'v allFlags \<Rightarrow> 'v list \<Rightarrow> 'v list \<Rightarrow> string list \<Rightarrow> bool"
  for gn :: "'v \<Rightarrow> string" and al :: "'v allFlags"
where
  group: "map_of al name = Some f \<Longrightarrow> expands_members gn al (Values f) vs ns \<Longrightarrow>
            expands gn al name vs (name # ns)"
| nil: "expands_members gn al [] [] []"
| leaf: "map_of al (gn m) = None \<Longrightarrow> expands_members gn al ms vs ns \<Longrightarrow>
            expands_members gn al (m # ms) (m # vs) ns"
| sub: "expands gn al (gn m) vs1 ns1 \<Longrightarrow> expands_members gn al ms vs2 ns2 \<Longrightarrow>
            expands_members gn al (m # ms) (vs1 @ vs2) (ns1 @ ns2)"

text \<open>
  \<open>firstRepeat V ns\<close> is the first name of the list \<open>ns\<close> that is in \<open>V\<close> or occurs
  earlier in the list: the first flag group that an expansion meets for the second time.
\<close>

fun firstRepeat :: "string set \<Rightarrow> string list \<Rightarrow> string option" where
  "firstRepeat V [] = None"
| "firstRepeat V (n # ns) = (if n \<in> V then Some n else firstRepeat (insert n V) ns)"

text \<open>Further example tables.\<close>

definition selfRef :: "ast_Int allFlags" where
  "selfRef = [grp ''A'' [ref ''B'', ref ''B'', ref ''A''], grp ''B'' [lit 1]]"

definition cyclic :: "ast_Int allFlags" where
  "cyclic = [grp ''C'' [lit 1, ref ''D''], grp ''D'' [ref ''C'']]"

definition usedTwice :: "ast_Int allFlags" where
  "usedTwice = [grp ''A'' [ref ''B'', ref ''B''], grp ''B'' [lit 1]]"

definition nested :: "ast_Int allFlags" where
  "nested = [grp ''A'' [lit 1, lit 2, ref ''B''], grp ''B'' [lit 3, lit 4]]"

definition nested1 :: "ast_Int allFlags" where
  "nested1 = [grp ''A'' [lit 1, lit 2, lit 3, lit 4], grp ''B'' [lit 3, lit 4]]"

text \<open>
  \<open>A = B, C\<close>; \<open>B = D\<close>; \<open>C = D\<close>; \<open>D = 1\<close>: no group refers to itself, \<open>D\<close> is reached
  from \<open>A\<close> along two paths. \<open>diamond4'\<close> is the same table after \<open>D\<close> and \<open>B\<close> have been
  flattened. In \<open>tooBig\<close>, \<open>A = B, B\<close> and \<open>B\<close> has 100001 values.
\<close>

definition diamond4 :: "ast_Int allFlags" where
  "diamond4 = [grp ''A'' [ref ''B'', ref ''C''], grp ''B'' [ref ''D''], grp ''C'' [ref ''D''],
               grp ''D'' [lit 1]]"

definition diamond4' :: "ast_Int allFlags" where
  "diamond4' = [grp ''A'' [ref ''B'', ref ''C''], grp ''B'' [lit 1], grp ''C'' [ref ''D''],
                grp ''D'' [lit 1]]"

definition tooBig :: "ast_Int allFlags" where
  "tooBig = [grp ''A'' [ref ''B'', ref ''B''], grp ''B'' (replicate 100001 (lit 7))]"

subsection \<open>The declaration tree\<close>

text \<open>
  \<open>ast.String\<close>, whose \<open>GetName\<close> is its \<open>Value\<close>.
\<close>

record ast_String =
  StrValue :: string

text \<open>
  A top-level declaration. \<open>Decl\<close> holds the three results of the node's \<open>Info()\<close>: its
  position, the word for its kind and its name. The node kinds that \<open>filterArch\<close> and
  \<open>flattenFlags\<close> tell apart are constructors; a flag-group node carries its member list.
\<close>

record Decl =
  DPos :: Pos
  DTyp :: string
  DName :: string

datatype Node =
    Call Decl
  | Resource Decl
  | Struct Decl
  | TypeDef Decl
  | IntFlags Decl "ast_Int list"
  | StrFlags Decl "ast_String list"
  | Other Decl

fun Info :: "Node \<Rightarrow> Decl" where
  "Info (Call d) = d"
| "Info (Resource d) = d"
| "Info (Struct d) = d"
| "Info (TypeDef d) = d"
| "Info (IntFlags d vs) = d"
| "Info (StrFlags d vs) = d"
| "Info (Other d) = d"

text \<open>
  \<open>ast.Type\<close>: a type expression, also used for attributes and their arguments.
\<close>

datatype Type =
  Type (TPos: Pos) (TValue: nat) (TIdent: string) (THasString: bool) (TString: string)
    (TColon: "Type list") (TArgs: "Type list")

record Field =
  FldName :: string
  FldType :: Type
  FldAttrs :: "Type list"

record StructDecl =
  SInfo :: Decl
  Fields :: "Field list"
  Attrs :: "Type list"
  IsUnion :: bool

subsection \<open>The compiler state\<close>

record Target =
  Arch :: string
  PtrSize :: nat
  SyscallNumbers :: bool

text \<open>
  The fields of \<open>compiler\<close> that this file reads or writes. \<open>diags\<close> is the sequence of
  calls of the error handler \<open>eh\<close>. Go maps that are iterated or that bound a recursion
  are association lists, the others partial functions. \<open>resources\<close> and \<open>typedefs\<close> are
  only tested for a non-nil entry. \<open>others\<close> stands for the fields that only code
  outside this file uses. \<open>errors\<close> is a Go \<open>int\<close> that is only ever incremented, once
  per handler call, and compared with zero; it is a natural number here.
\<close>

record 'x compiler =
  desc :: "Node list"
  target :: Target
  errors :: nat
  diags :: "(Pos \<times> string) list"
  warnings :: "(Pos \<times> string) list"
  ptrSize :: nat
  unsupported :: "string \<rightharpoonup> bool"
  resources :: "string set"
  typedefs :: "string set"
  structs :: "(string \<times> StructDecl) list"
  intFlags :: "ast_Int allFlags"
  strFlags :: "ast_String allFlags"
  structVarlen :: "string \<rightharpoonup> bool"
  others :: 'x

definition error :: "Pos \<Rightarrow> string \<Rightarrow> 'x compiler \<Rightarrow> 'x compiler" where
  "error pos msg c = c\<lparr>errors := errors c + 1, diags := diags c @ [(pos, msg)]\<rparr>"

definition warning :: "Pos \<Rightarrow> string \<Rightarrow> 'x compiler \<Rightarrow> 'x compiler" where
  "warning pos msg c = c\<lparr>warnings := warnings c @ [(pos, msg)]\<rparr>"

subsection \<open>Code of the package outside this file\<close>

text \<open>
  \<open>Compile\<close> and \<open>filterArch\<close> call methods of \<open>compiler\<close> that other files of the package
  define. They are parameters of the model, collected in one record: each is a function
  of the compiler state (and of the constants where the source passes them) to the new
  state and to what the method returns. \<open>supportsArch c pos\<close> stands for the call
  \<open>c.fileMeta(pos).SupportsArch(c.target.Arch)\<close>: \<open>fileMeta\<close> is a method of \<open>compiler\<close>,
  so besides the answer it yields the state that it leaves. \<open>builtinDescs\<close>
  is the package variable of that name and \<open>others0\<close> the initial value of the fields in
  \<open>others\<close>. \<open>'fc\<close>, \<open>'s\<close>, \<open>'t\<close> and \<open>'r\<close> are the types of the constant table of a file,
  of \<open>prog.Syscall\<close>, \<open>prog.Type\<close> and \<open>prog.ResourceDesc\<close>.
\<close>

record ('x, 'fc, 's, 't, 'r) package =
  builtinDescs :: "Node list"
  others0 :: 'x
  supportsArch :: "'x compiler \<Rightarrow> Pos \<Rightarrow> bool \<times> 'x compiler"
  typecheck :: "'x compiler \<Rightarrow> 'x compiler"
  extractConsts :: "'x compiler \<Rightarrow> 'fc \<times> 'x compiler"
  assignSyscallNumbers :: "(string \<rightharpoonup> nat) \<Rightarrow> 'x compiler \<Rightarrow> 'x compiler"
  patchConsts :: "(string \<rightharpoonup> nat) \<Rightarrow> 'x compiler \<Rightarrow> 'x compiler"
  check :: "(string \<rightharpoonup> nat) \<Rightarrow> 'x compiler \<Rightarrow> 'x compiler"
  genSyscalls :: "'x compiler \<Rightarrow> 's list \<times> 'x compiler"
  layoutTypes :: "'s list \<Rightarrow> 'x compiler \<Rightarrow> 'x compiler"
  generateTypes :: "'s list \<Rightarrow> 'x compiler \<Rightarrow> 't list \<times> 'x compiler"
  genResources :: "'x compiler \<Rightarrow> 'r list \<times> 'x compiler"

subsection \<open>\<open>createCompiler\<close> and \<open>filterArch\<close>\<close>

definition createCompiler ::
  "('x, 'fc, 's, 't, 'r) package \<Rightarrow> Node list \<Rightarrow> Target \<Rightarrow> 'x compiler" where
  "createCompiler P nodes tgt =
     \<lparr>desc = builtinDescs P @ nodes, target = tgt, errors = 0, diags = [], warnings = [],
      ptrSize = PtrSize tgt, unsupported = Map.empty, resources = {}, typedefs = {},
      structs = [], intFlags = [], strFlags = [], structVarlen = Map.empty,
      others = others0 P\<rparr>"

text \<open>
  \<open>desc.Filter\<close> calls the predicate on the nodes in order and keeps those it accepts.
  The predicate of \<open>filterArch\<close> calls \<open>comp.fileMeta\<close> and writes to \<open>comp.unsupported\<close>,
  so the compiler state is threaded through the calls. \<open>comp.desc\<close> is assigned when
  \<open>Filter\<close> has returned: the loop ranges over the nodes that \<open>filterArch\<close> was called on.
\<close>

fun recorded :: "Node \<Rightarrow> bool" where
  "recorded (Resource d) = True"
| "recorded (Struct d) = True"
| "recorded (Call d) = True"
| "recorded (TypeDef d) = True"
| "recorded n = False"

fun filterNodes ::
  "('x compiler \<Rightarrow> Pos \<Rightarrow> bool \<times> 'x compiler) \<Rightarrow> Node list \<Rightarrow> 'x compiler \<Rightarrow> Node list \<times> 'x compiler" where
  "filterNodes meta [] c = ([], c)"
| "filterNodes meta (n # ns) c =
     (case meta c (DPos (Info n)) of (ok, c1) \<Rightarrow>
        if ok
        then (case filterNodes meta ns c1 of (kept, c2) \<Rightarrow> (n # kept, c2))
        else filterNodes meta ns
               (if recorded n
                then c1\<lparr>unsupported := (unsupported c1)(DTyp (Info n) @ '' '' @ DName (Info n) \<mapsto> True)\<rparr>
                else c1))"

definition filterArch :: "('x, 'fc, 's, 't, 'r) package \<Rightarrow> 'x compiler \<Rightarrow> 'x compiler" where
  "filterArch P c =
     (case filterNodes (supportsArch P) (desc c) c of (kept, c') \<Rightarrow> c'\<lparr>desc := kept\<rparr>)"

subsection \<open>\<open>flattenFlags\<close>\<close>

text \<open>
  \<open>flattenIntFlags\<close> and \<open>flattenStrFlags\<close> range over a Go map, in an order that the
  language leaves open and the runtime varies from one run to the next. The order is the
  parameter \<open>order\<close>: the keys of the map in the order in which the loop visits them.
  Every visit starts \<open>recurFlattenFlags\<close> with a fresh visited set and reports a returned
  error at the position of the group. \<open>recurFlattenFlags\<close> does not panic
  (\<open>flatten_frame\<close> below), so that branch only completes the case distinction.
\<close>

fun flattenAll ::
  "('v \<Rightarrow> string) \<Rightarrow> string list \<Rightarrow> 'v allFlags \<Rightarrow> 'x compiler \<Rightarrow> 'v allFlags \<times> 'x compiler" where
  "flattenAll gn [] allFlags c = (allFlags, c)"
| "flattenAll gn (name # order) allFlags c =
     (case map_of allFlags name of
        None \<Rightarrow> flattenAll gn order allFlags c
      | Some flags \<Rightarrow>
          (case recurFlattenFlags gn name flags (allFlags, {}) of
             Done u (allFlags', visited) \<Rightarrow> flattenAll gn order allFlags' c
           | Failed (Errorf msg) (allFlags', visited) \<Rightarrow>
               flattenAll gn order allFlags' (error (FPos flags) msg c)
           | Panicked \<Rightarrow> (allFlags, c)))"

definition flattenIntFlags :: "string list \<Rightarrow> 'x compiler \<Rightarrow> 'x compiler" where
  "flattenIntFlags order c =
     (case flattenAll Ident order (intFlags c) c of (allFlags, c') \<Rightarrow> c'\<lparr>intFlags := allFlags\<rparr>)"

definition flattenStrFlags :: "string list \<Rightarrow> 'x compiler \<Rightarrow> 'x compiler" where
  "flattenStrFlags order c =
     (case flattenAll StrValue order (strFlags c) c of (allFlags, c') \<Rightarrow> c'\<lparr>strFlags := allFlags\<rparr>)"

text \<open>
  The last loop of \<open>flattenFlags\<close> copies the flattened values into every flag-group node
  of the tree whose name is in the table.
\<close>

fun copyValues :: "'x compiler \<Rightarrow> Node \<Rightarrow> Node" where
  "copyValues c (IntFlags d vs) =
     (case map_of (intFlags c) (DName d) of Some f \<Rightarrow> IntFlags d (Values f) | None \<Rightarrow> IntFlags d vs)"
| "copyValues c (StrFlags d vs) =
     (case map_of (strFlags c) (DName d) of Some f \<Rightarrow> StrFlags d (Values f) | None \<Rightarrow> StrFlags d vs)"
| "copyValues c n = n"

definition flattenFlags :: "string list \<Rightarrow> string list \<Rightarrow> 'x compiler \<Rightarrow> 'x compiler" where
  "flattenFlags intOrder strOrder c =
     (let c1 = flattenIntFlags intOrder c;
          c2 = flattenStrFlags strOrder c1
      in c2\<lparr>desc := map (copyValues c2) (desc c2)\<rparr>)"

subsection \<open>\<open>Compile\<close>\<close>

record ('fc, 's, 't, 'r) Prog =
  Resources :: "'r list"
  Syscalls :: "'s list"
  Types :: "'t list"
  Unsupported :: "string \<rightharpoonup> bool"
  fileConsts :: "'fc option"

text \<open>
  The three straight-line runs of stages of \<open>Compile\<close>, between which the error counter is
  tested. \<open>consts\<close> is \<open>None\<close> for a nil map. The result of \<open>Compile\<close> is the returned
  \<open>*Prog\<close> (\<open>None\<close> for nil) and the calls of the error handler in order; the warnings
  are handed to it when a specification is returned.
\<close>

definition frontStages ::
  "('x, 'fc, 's, 't, 'r) package \<Rightarrow> string list \<Rightarrow> string list \<Rightarrow> 'x compiler \<Rightarrow> 'x compiler" where
  "frontStages P intOrder strOrder c =
     flattenFlags intOrder strOrder (typecheck P (filterArch P c))"

definition constStages ::
  "('x, 'fc, 's, 't, 'r) package \<Rightarrow> (string \<rightharpoonup> nat) \<Rightarrow> 'x compiler \<Rightarrow> 'x compiler" where
  "constStages P consts c =
     check P consts (patchConsts P consts
       (if SyscallNumbers (target c) then assignSyscallNumbers P consts c else c))"

definition genStages ::
  "('x, 'fc, 's, 't, 'r) package \<Rightarrow> 'x compiler \<Rightarrow> ('fc, 's, 't, 'r) Prog \<times> 'x compiler" where
  "genStages P c =
     (case genSyscalls P c of (syscalls, c1) \<Rightarrow>
        (case generateTypes P syscalls (layoutTypes P syscalls c1) of (types, c2) \<Rightarrow>
           (case genResources P c2 of (res, c3) \<Rightarrow>
              (\<lparr>Resources = res, Syscalls = syscalls, Types = types,
                Unsupported = unsupported c3, fileConsts = None\<rparr>, c3))))"

definition Compile ::
  "('x, 'fc, 's, 't, 'r) package \<Rightarrow> string list \<Rightarrow> string list \<Rightarrow> Node list \<Rightarrow>
     (string \<rightharpoonup> nat) option \<Rightarrow> Target \<Rightarrow> ('fc, 's, 't, 'r) Prog option \<times> (Pos \<times> string) list" where
  "Compile P intOrder strOrder nodes consts tgt =
     (let c = frontStages P intOrder strOrder (createCompiler P nodes tgt) in
      if errors c \<noteq> 0 then (None, diags c)
      else case consts of
        None \<Rightarrow>
          (case extractConsts P c of (fc, c1) \<Rightarrow>
             if errors c1 \<noteq> 0 then (None, diags c1)
             else (Some \<lparr>Resources = [], Syscalls = [], Types = [], Unsupported = Map.empty,
                          fileConsts = Some fc\<rparr>, diags c1))
      | Some cs \<Rightarrow>
          (let c1 = constStages P cs c in
           if errors c1 \<noteq> 0 then (None, diags c1)
           else case genStages P c1 of (prg, c2) \<Rightarrow>
             if errors c2 \<noteq> 0 then (None, diags c2)
             else (Some prg, diags c2 @ warnings c2)))"

text \<open>
  The methods of other files never lower the error counter: the only statement of the
  package that assigns it is the increment in \<open>comp.error\<close>.
\<close>

definition stages_mono :: "('x, 'fc, 's, 't, 'r) package \<Rightarrow> bool" where
  "stages_mono P \<longleftrightarrow>
     (\<forall>c. errors c \<le> errors (typecheck P c)) \<and>
     (\<forall>c. errors c \<le> errors (snd (extractConsts P c))) \<and>
     (\<forall>cs c. errors c \<le> errors (assignSyscallNumbers P cs c)) \<and>
     (\<forall>cs c. errors c \<le> errors (patchConsts P cs c)) \<and>
     (\<forall>cs c. errors c \<le> errors (check P cs c)) \<and>
     (\<forall>c. errors c \<le> errors (snd (genSyscalls P c))) \<and>
     (\<forall>s c. errors c \<le> errors (layoutTypes P s c)) \<and>
     (\<forall>s c. errors c \<le> errors (snd (generateTypes P s c))) \<and>
     (\<forall>c. errors c \<le> errors (snd (genResources P c)))"

text \<open>
  What the statements about the architecture filter take for granted of the code outside
  this file. \<open>metaKeeps\<close>: \<open>comp.fileMeta\<close> leaves the unsupported set, the error counter
  and the diagnostics as they are. \<open>tracksCalls\<close>: a syscall descriptor is generated from
  a call declaration of the tree and carries its name (\<open>sysName\<close> reads the name of a
  descriptor), and the stages between the filter and the generation add no call
  declaration to the tree. \<open>callNames\<close> lists the names of the call declarations of a tree.
\<close>

fun callNames :: "Node list \<Rightarrow> string list" where
  "callNames [] = []"
| "callNames (Call d # ns) = DName d # callNames ns"
| "callNames (n # ns) = callNames ns"

definition metaKeeps :: "('x, 'fc, 's, 't, 'r) package \<Rightarrow> bool" where
  "metaKeeps P \<longleftrightarrow>
     (\<forall>c pos. unsupported (snd (supportsArch P c pos)) = unsupported c \<and>
        errors (snd (supportsArch P c pos)) = errors c \<and>
        diags (snd (supportsArch P c pos)) = diags c)"

definition tracksCalls :: "('x, 'fc, 's, 't, 'r) package \<Rightarrow> ('s \<Rightarrow> string) \<Rightarrow> bool" where
  "tracksCalls P sysName \<longleftrightarrow>
     (\<forall>c. set (callNames (desc (typecheck P c))) \<subseteq> set (callNames (desc c))) \<and>
     (\<forall>cs c. set (callNames (desc (assignSyscallNumbers P cs c))) \<subseteq> set (callNames (desc c))) \<and>
     (\<forall>cs c. set (callNames (desc (patchConsts P cs c))) \<subseteq> set (callNames (desc c))) \<and>
     (\<forall>cs c. set (callNames (desc (check P cs c))) \<subseteq> set (callNames (desc c))) \<and>
     (\<forall>c. sysName ` set (fst (genSyscalls P c)) \<subseteq> set (callNames (desc c)))"

subsection \<open>An example package and example trees\<close>

text \<open>
  \<open>exPackage found otherArch\<close> is a simple instance of the code outside this file: the
  type checker enters the integer flag groups of the tree into \<open>comp.intFlags\<close> and
  reports the errors \<open>found\<close>; the files \<open>otherArch\<close> do not support the target
  architecture; a syscall descriptor is the name of a call; the other stages do nothing.
\<close>

definition exPos :: "string \<Rightarrow> nat \<Rightarrow> Pos" where
  "exPos file line = \<lparr>File = file, Off = 0, Line = int line, Col = 1\<rparr>"

definition exDecl :: "string \<Rightarrow> nat \<Rightarrow> string \<Rightarrow> string \<Rightarrow> Decl" where
  "exDecl file line typ name = \<lparr>DPos = exPos file line, DTyp = typ, DName = name\<rparr>"

fun flagTable :: "Node list \<Rightarrow> ast_Int allFlags" where
  "flagTable [] = []"
| "flagTable (IntFlags d vs # ns) =
     (DName d, \<lparr>FPos = DPos d, FName = DName d, Values = vs\<rparr>) # flagTable ns"
| "flagTable (n # ns) = flagTable ns"

definition exTypecheck :: "(Pos \<times> string) list \<Rightarrow> unit compiler \<Rightarrow> unit compiler" where
  "exTypecheck found c =
     foldl (\<lambda>c' (pos, msg). error pos msg c') (c\<lparr>intFlags := flagTable (desc c)\<rparr>) found"

definition exPackage ::
  "(Pos \<times> string) list \<Rightarrow> string list \<Rightarrow> (unit, unit, string, unit, unit) package" where
  "exPackage found otherArch =
     \<lparr>builtinDescs = [], others0 = (),
      supportsArch = (\<lambda>c pos. (File pos \<notin> set otherArch, c)),
      typecheck = exTypecheck found,
      extractConsts = (\<lambda>c. ((), c)),
      assignSyscallNumbers = (\<lambda>consts c. c),
      patchConsts = (\<lambda>consts c. c),
      check = (\<lambda>consts c. c),
      genSyscalls = (\<lambda>c. (callNames (desc c), c)),
      layoutTypes = (\<lambda>syscalls c. c),
      generateTypes = (\<lambda>syscalls c. ([], c)),
      genResources = (\<lambda>c. ([], c))\<rparr>"

definition exTarget :: Target where
  "exTarget = \<lparr>Arch = ''64'', PtrSize = 8, SyscallNumbers = False\<rparr>"

definition twoCalls :: "Node list" where
  "twoCalls = [Call (exDecl ''a.txt'' 1 ''syscall'' ''foo''), Call (exDecl ''b.txt'' 1 ''syscall'' ''bar'')]"

definition cyclicNodes :: "Node list" where
  "cyclicNodes =
     [IntFlags (exDecl ''a.txt'' 1 ''flags'' ''C'') [lit 1, ref ''D''],
      IntFlags (exDecl ''a.txt'' 2 ''flags'' ''D'') [ref ''C'']]"

definition diamondNodes :: "Node list" where
  "diamondNodes =
     [IntFlags (exDecl ''a.txt'' 1 ''flags'' ''A'') [ref ''B'', ref ''C''],
      IntFlags (exDecl ''a.txt'' 2 ''flags'' ''B'') [ref ''C''],
      IntFlags (exDecl ''a.txt'' 3 ''flags'' ''C'') [lit 1]]"

subsection \<open>Attributes\<close>

text \<open>
  \<open>attrDesc\<close> is declared in another file; \<open>parseAttrs\<close> reads its \<open>Type\<close> and uses the
  pointer to it as a map key. The descriptors are distinct package variables, so a
  descriptor stands for its pointer here. \<open>otherAttr\<close> is any value of the descriptor type
  besides the four that the \<open>switch\<close> of \<open>parseAttrs\<close> names.
\<close>

datatype attrDescType = flagAttr | intAttr | exprAttr | stringAttr | otherAttr

record attrDesc =
  AttrName :: string
  AttrType :: attrDescType

datatype kind = kindIdent | kindInt

text \<open>
  The code of other files that attribute parsing and variable-length determination call,
  as parameters. \<open>checkTypeKind\<close> returns the description of what it found instead of the
  expected kind, and whether the kind is right (its second result is not used here).
  \<open>genExpression\<close> builds a \<open>prog.Expression\<close> from an argument node. The tables
  \<open>unionAttrs\<close> and \<open>structFieldAttrs\<close> and the descriptors \<open>attrVarlen\<close> and \<open>attrIf\<close> are
  package variables.
\<close>

datatype varlenRule = NeverVarlen | AlwaysVarlen | VarlenOfArg nat

record 'e checker =
  checkTypeKind :: "Type \<Rightarrow> kind \<Rightarrow> string \<times> bool"
  genExpression :: "Type \<Rightarrow> 'e"
  unionAttrs :: "string \<rightharpoonup> attrDesc"
  structFieldAttrs :: "string \<rightharpoonup> attrDesc"
  attrVarlen :: attrDesc
  attrIf :: attrDesc
  builtinTypes :: "string set"
  typeVarlen :: "Type \<Rightarrow> varlenRule"

text \<open>
  The three result maps of \<open>parseAttrs\<close>. An expression or a string that a helper returns
  after an error is \<open>nil\<close> or the empty string.
\<close>

record 'e attrMaps =
  resInt :: "attrDesc \<rightharpoonup> nat"
  resExpr :: "attrDesc \<rightharpoonup> 'e option"
  resString :: "attrDesc \<rightharpoonup> string"

definition noAttrs :: "'e attrMaps" where
  "noAttrs = \<lparr>resInt = Map.empty, resExpr = Map.empty, resString = Map.empty\<rparr>"

definition parseAttrExprArg :: "'e checker \<Rightarrow> Type \<Rightarrow> 'x compiler \<Rightarrow> 'e option \<times> 'x compiler" where
  "parseAttrExprArg K attr c =
     (case TArgs attr of
        [arg] \<Rightarrow>
          if THasString arg
          then (None, error (TPos attr) (TIdent attr @ '' argument must be an expression'') c)
          else (Some (genExpression K arg), c)
      | _ \<Rightarrow> (None, error (TPos attr)
                 (TIdent attr @ '' attribute is expected to have only one argument'') c))"

definition parseAttrIntArg :: "'e checker \<Rightarrow> Type \<Rightarrow> 'x compiler \<Rightarrow> nat \<times> 'x compiler" where
  "parseAttrIntArg K attr c =
     (case TArgs attr of
        [sz] \<Rightarrow>
          (case checkTypeKind K sz kindInt of (unexpected, ok) \<Rightarrow>
             if \<not> ok then (0, error (TPos sz) (''unexpected '' @ unexpected @ '', expect int'') c)
             else if TColon sz \<noteq> [] \<or> TArgs sz \<noteq> []
             then (0, error (TPos sz) (TIdent attr @ '' attribute has colon or args'') c)
             else (TValue sz, c))
      | _ \<Rightarrow> (0, error (TPos attr) (TIdent attr @ '' attribute is expected to have 1 argument'') c))"

definition parseAttrStringArg :: "'e checker \<Rightarrow> Type \<Rightarrow> 'x compiler \<Rightarrow> string \<times> 'x compiler" where
  "parseAttrStringArg K attr c =
     (case TArgs attr of
        [arg] \<Rightarrow>
          if \<not> THasString arg
          then ([], error (TPos attr) (TIdent attr @ '' argument must be a string'') c)
          else (TString arg, c)
      | _ \<Rightarrow> ([], error (TPos attr) (TIdent attr @ '' attribute is expected to have 1 argument'') c))"

text \<open>
  One iteration of the loop of \<open>parseAttrs\<close>: it either goes on to the next attribute with
  the maps it has got so far, or returns from \<open>parseAttrs\<close>, with the maps or with three
  \<open>nil\<close>s (\<open>None\<close>).
\<close>

datatype ('m, 'c) step = Next 'm 'c | Return "'m option" 'c

definition parseAttr ::
  "'e checker \<Rightarrow> (string \<rightharpoonup> attrDesc) \<Rightarrow> string \<Rightarrow> string \<Rightarrow> Type \<Rightarrow> 'e attrMaps \<Rightarrow> 'x compiler \<Rightarrow>
     ('e attrMaps, 'x compiler) step" where
  "parseAttr K descs parentType parentName attr res c =
     (case checkTypeKind K attr kindIdent of (unexpected, ok) \<Rightarrow>
      if \<not> ok
      then Return (Some res) (error (TPos attr) (''unexpected '' @ unexpected @ '', expect attribute'') c)
      else case TColon attr of
        col # cols \<Rightarrow> Return (Some res) (error (TPos col) (''unexpected '' @ [CHR 0x27, CHR '':'', CHR 0x27]) c)
      | [] \<Rightarrow>
         (case descs (TIdent attr) of
            None \<Rightarrow> Return (Some res) (error (TPos attr)
              (''unknown '' @ parentType @ '' '' @ parentName @ '' attribute '' @ TIdent attr) c)
          | Some d \<Rightarrow>
              if resInt res d \<noteq> None \<or> resExpr res d \<noteq> None \<or> resString res d \<noteq> None
              then Return (Some res) (error (TPos attr)
                (''duplicate '' @ parentType @ '' '' @ parentName @ '' attribute '' @ TIdent attr) c)
              else
                (case AttrType d of
                   flagAttr \<Rightarrow>
                     if TArgs attr \<noteq> []
                     then Return None (error (TPos attr) (TIdent attr @ '' attribute has args'') c)
                     else Next (res\<lparr>resInt := (resInt res)(d \<mapsto> 1)\<rparr>) c
                 | intAttr \<Rightarrow>
                     (case parseAttrIntArg K attr c of (v, c') \<Rightarrow>
                        Next (res\<lparr>resInt := (resInt res)(d \<mapsto> v)\<rparr>) c')
                 | exprAttr \<Rightarrow>
                     (case parseAttrExprArg K attr c of (v, c') \<Rightarrow>
                        Next (res\<lparr>resExpr := (resExpr res)(d \<mapsto> v)\<rparr>) c')
                 | stringAttr \<Rightarrow>
                     (case parseAttrStringArg K attr c of (v, c') \<Rightarrow>
                        Next (res\<lparr>resString := (resString res)(d \<mapsto> v)\<rparr>) c')
                 | otherAttr \<Rightarrow>
                     Return None (error (TPos attr)
                       (''attribute '' @ TIdent attr @ '' has unknown type'') c))))"

fun parseAttrsLoop ::
  "'e checker \<Rightarrow> (string \<rightharpoonup> attrDesc) \<Rightarrow> string \<Rightarrow> string \<Rightarrow> Type list \<Rightarrow> 'e attrMaps \<Rightarrow> 'x compiler \<Rightarrow>
     ('e attrMaps, 'x compiler) step" where
  "parseAttrsLoop K descs parentType parentName [] res c = Next res c"
| "parseAttrsLoop K descs parentType parentName (attr # attrs) res c =
     (case parseAttr K descs parentType parentName attr res c of
        Return r c' \<Rightarrow> Return r c'
      | Next res' c' \<Rightarrow> parseAttrsLoop K descs parentType parentName attrs res' c')"

definition parseAttrs ::
  "'e checker \<Rightarrow> (string \<rightharpoonup> attrDesc) \<Rightarrow> Decl \<Rightarrow> Type list \<Rightarrow> 'x compiler \<Rightarrow>
     'e attrMaps option \<times> 'x compiler" where
  "parseAttrs K descs parent attrs c =
     (case parseAttrsLoop K descs (DTyp parent) (DName parent) attrs noAttrs c of
        Next res c' \<Rightarrow> (Some res, c')
      | Return r c' \<Rightarrow> (r, c'))"

definition parseIntAttrs ::
  "'e checker \<Rightarrow> (string \<rightharpoonup> attrDesc) \<Rightarrow> Decl \<Rightarrow> Type list \<Rightarrow> 'x compiler \<Rightarrow>
     (attrDesc \<rightharpoonup> nat) option \<times> 'x compiler" where
  "parseIntAttrs K descs parent attrs c =
     (case parseAttrs K descs parent attrs c of (r, c') \<Rightarrow> (map_option resInt r, c'))"

subsection \<open>Example attributes\<close>

definition exCheckTypeKind :: "Type \<Rightarrow> kind \<Rightarrow> string \<times> bool" where
  "exCheckTypeKind t k =
     (if THasString t then (''string '' @ TString t, False)
      else if TIdent t \<noteq> [] then ([], True)
      else (''int '' @ itoa (TValue t), k = kindInt))"

definition attrPacked :: attrDesc where
  "attrPacked = \<lparr>AttrName = ''packed'', AttrType = flagAttr\<rparr>"

definition attrAlign :: attrDesc where
  "attrAlign = \<lparr>AttrName = ''align'', AttrType = intAttr\<rparr>"

definition exVarlen :: attrDesc where
  "exVarlen = \<lparr>AttrName = ''varlen'', AttrType = flagAttr\<rparr>"

definition exIf :: attrDesc where
  "exIf = \<lparr>AttrName = ''if'', AttrType = exprAttr\<rparr>"

definition exStructAttrs :: "string \<rightharpoonup> attrDesc" where
  "exStructAttrs = [''packed'' \<mapsto> attrPacked, ''align'' \<mapsto> attrAlign]"

definition exRule :: "Type \<Rightarrow> varlenRule" where
  "exRule t =
     (if TIdent t = ''ptr'' then VarlenOfArg 1
      else if TIdent t = ''array'' then (if length (TArgs t) = 1 then AlwaysVarlen else VarlenOfArg 0)
      else if TIdent t = ''string'' then AlwaysVarlen
      else NeverVarlen)"

definition exChecker :: "unit checker" where
  "exChecker =
     \<lparr>checkTypeKind = exCheckTypeKind, genExpression = (\<lambda>t. ()),
      unionAttrs = [''varlen'' \<mapsto> exVarlen], structFieldAttrs = [''if'' \<mapsto> exIf],
      attrVarlen = exVarlen, attrIf = exIf,
      builtinTypes = {''int8'', ''int32'', ''ptr'', ''array'', ''string''},
      typeVarlen = exRule\<rparr>"

definition ident :: "nat \<Rightarrow> string \<Rightarrow> Type list \<Rightarrow> Type" where
  "ident line name args = Type (exPos ''a.txt'' line) 0 name False [] [] args"

definition intLit :: "nat \<Rightarrow> nat \<Rightarrow> Type" where
  "intLit line v = Type (exPos ''a.txt'' line) v [] False [] [] []"

definition strLit :: "nat \<Rightarrow> string \<Rightarrow> Type" where
  "strLit line s = Type (exPos ''a.txt'' line) 0 [] True s [] []"

definition exStruct :: Decl where
  "exStruct = exDecl ''a.txt'' 1 ''struct'' ''S''"

definition exComp :: "unit compiler" where
  "exComp = createCompiler (exPackage [] []) [] exTarget"

text \<open>An attribute descriptor is recorded when one of the three maps has it as a key.\<close>

definition recordedIn :: "'e attrMaps \<Rightarrow> attrDesc \<Rightarrow> bool" where
  "recordedIn res d \<longleftrightarrow> resInt res d \<noteq> None \<or> resExpr res d \<noteq> None \<or> resString res d \<noteq> None"

subsection \<open>Variable-length determination\<close>

text \<open>
  \<open>getTypeDesc\<close>: the descriptor of a type expression. The descriptors of builtin types
  are declared elsewhere; \<open>builtinTypes\<close> holds the names that have one.
\<close>

datatype typeDesc = typeBuiltin string | typeResource | typeStruct | typeTypedef

definition getTypeDesc :: "'e checker \<Rightarrow> 'x compiler \<Rightarrow> Type \<Rightarrow> typeDesc option" where
  "getTypeDesc K c t =
     (if TIdent t \<in> builtinTypes K then Some (typeBuiltin (TIdent t))
      else if TIdent t \<in> resources c then Some typeResource
      else if map_of (structs c) (TIdent t) \<noteq> None then Some typeStruct
      else if TIdent t \<in> typedefs c then Some typeTypedef
      else None)"

definition lookupInt :: "(attrDesc \<rightharpoonup> nat) option \<Rightarrow> attrDesc \<Rightarrow> nat" where
  "lookupInt res d = (case res of None \<Rightarrow> 0 | Some m \<Rightarrow> (case m d of None \<Rightarrow> 0 | Some v \<Rightarrow> v))"

definition hasIfAttr :: "'e checker \<Rightarrow> Field \<Rightarrow> bool" where
  "hasIfAttr K fld = list_ex (\<lambda>attr. structFieldAttrs K (TIdent attr) = Some (attrIf K)) (FldAttrs fld)"

text \<open>
  \<open>structIsVarlen\<close>, the loop over the fields of the struct, and \<open>isVarlen\<close>.

  Modelled from the spec: \<open>isVarlen\<close> is not under \<open>src/\<close>. The specification (4.7) says
  that a struct is varlen if "the field's own type is varlen (recursively)". A type that
  resolves to a struct is decided by \<open>structIsVarlen\<close> on its name. For any other type the
  decision belongs to the type's descriptor, which is the parameter \<open>typeVarlen\<close>: the type
  is never varlen, always varlen, or varlen when one given type argument is (the way a
  pointer or an array refers to another type).

  \<open>comp.structs[name]\<close> is nil for a name that is not in the table, and \<open>s.IsUnion\<close> then
  panics.
\<close>

text \<open>
  The block \<open>if s.IsUnion { ... }\<close> of \<open>structIsVarlen\<close>: whether it takes the early
  return, and the state after the attributes of a union have been parsed.
\<close>

definition unionVarlen :: "'e checker \<Rightarrow> StructDecl \<Rightarrow> 'x compiler \<Rightarrow> bool \<times> 'x compiler" where
  "unionVarlen K s c =
     (if IsUnion s
      then (case parseIntAttrs K (unionAttrs K) (SInfo s) (Attrs s) c of
              (res, c1) \<Rightarrow> (lookupInt res (attrVarlen K) \<noteq> 0, c1))
      else (False, c))"

datatype 'c returned = Returns bool 'c | Panics

function structIsVarlen :: "'e checker \<Rightarrow> string \<Rightarrow> 'x compiler \<Rightarrow> 'x compiler returned"
  and fieldsVarlen :: "'e checker \<Rightarrow> Field list \<Rightarrow> 'x compiler \<Rightarrow> 'x compiler returned"
  and isVarlen :: "'e checker \<Rightarrow> Type \<Rightarrow> 'x compiler \<Rightarrow> 'x compiler returned"
where
  "structIsVarlen K name c =
     (case structVarlen c name of
        Some varlen \<Rightarrow> Returns varlen c
      | None \<Rightarrow>
          (case map_of (structs c) name of
             None \<Rightarrow> Panics
           | Some s \<Rightarrow>
               if fst (unionVarlen K s c)
               then Returns True
                      ((snd (unionVarlen K s c))\<lparr>structVarlen :=
                         (structVarlen (snd (unionVarlen K s c)))(name \<mapsto> True)\<rparr>)
               else
                 (case fieldsVarlen K (Fields s)
                         ((snd (unionVarlen K s c))\<lparr>structVarlen :=
                            (structVarlen (snd (unionVarlen K s c)))(name \<mapsto> False)\<rparr>) of
                    Returns varlen c2 \<Rightarrow>
                      Returns varlen (c2\<lparr>structVarlen := (structVarlen c2)(name \<mapsto> varlen)\<rparr>)
                  | Panics \<Rightarrow> Panics)))"
| "fieldsVarlen K [] c = Returns False c"
| "fieldsVarlen K (fld # flds) c =
     (if hasIfAttr K fld then Returns True c
      else
        (case isVarlen K (FldType fld) c of
           Returns v c1 \<Rightarrow> if v then Returns True c1 else fieldsVarlen K flds c1
         | Panics \<Rightarrow> Panics))"
| "isVarlen K t c =
     (if getTypeDesc K c t = Some typeStruct then structIsVarlen K (TIdent t) c
      else
        (case typeVarlen K t of
           NeverVarlen \<Rightarrow> Returns False c
         | AlwaysVarlen \<Rightarrow> Returns True c
         | VarlenOfArg n \<Rightarrow>
             if n < length (TArgs t) then isVarlen K (TArgs t ! n) c else Returns False c))"
  by pat_completeness auto


text \<open>
  What attribute parsing and variable-length determination leave alone: \<open>onlyReports\<close>
  holds when nothing but the error counter and the diagnostics differs, \<open>sameTables\<close>
  when the symbol tables are the same, \<open>keepsMemo\<close> when every entry of the memo table is
  still there with its value. \<open>pending\<close> counts the structs without a memo entry.
\<close>

definition onlyReports :: "'x compiler \<Rightarrow> 'x compiler \<Rightarrow> bool" where
  "onlyReports c c' \<longleftrightarrow> c' = c\<lparr>errors := errors c', diags := diags c'\<rparr>"

definition sameTables :: "'x compiler \<Rightarrow> 'x compiler \<Rightarrow> bool" where
  "sameTables c c' \<longleftrightarrow>
     structs c' = structs c \<and> resources c' = resources c \<and> typedefs c' = typedefs c"

definition keepsMemo :: "'x compiler \<Rightarrow> 'x compiler \<Rightarrow> bool" where
  "keepsMemo c c' \<longleftrightarrow> (\<forall>n v. structVarlen c n = Some v \<longrightarrow> structVarlen c' n = Some v)"

definition pending :: "'x compiler \<Rightarrow> nat" where
  "pending c = card (fst ` set (structs c) - dom (structVarlen c))"

text \<open>A struct with a pointer to itself: \<open>S { next ptr[in, S]; v int8 }\<close>.\<close>

definition field :: "string \<Rightarrow> Type \<Rightarrow> Type list \<Rightarrow> Field" where
  "field name t attrs = \<lparr>FldName = name, FldType = t, FldAttrs = attrs\<rparr>"

definition selfStruct :: StructDecl where
  "selfStruct =
     \<lparr>SInfo = exDecl ''a.txt'' 1 ''struct'' ''S'',
      Fields = [field ''next'' (ident 2 ''ptr'' [ident 2 ''in'' [], ident 2 ''S'' []]) [],
                field ''v'' (ident 3 ''int8'' []) []],
      Attrs = [], IsUnion = False\<rparr>"

definition selfComp :: "unit compiler" where
  "selfComp = exComp\<lparr>structs := [(''S'', selfStruct)]\<rparr>"

subsection \<open>The rule for variable length\<close>

text \<open>
  The rule of the specification, on the tables of one compiler state: a struct is
  variable-length when it is a union whose attributes make \<open>structIsVarlen\<close> return
  early, when a field carries the \<open>if\<close> attribute, or when the type of a field is
  variable-length; a type is variable-length when it resolves to a variable-length
  struct, when its descriptor says so, or when the type argument that its descriptor
  points to is. The relation is the least one with these rules, so a struct that these
  rules only reach through itself is not variable-length.
\<close>

inductive varlenStruct :: "'e checker \<Rightarrow> 'x compiler \<Rightarrow> string \<Rightarrow> bool"
  and varlenType :: "'e checker \<Rightarrow> 'x compiler \<Rightarrow> Type \<Rightarrow> bool"
  for K :: "'e checker" and c :: "'x compiler"
where
  byUnionAttr: "map_of (structs c) name = Some s \<Longrightarrow> fst (unionVarlen K s c) \<Longrightarrow>
     varlenStruct K c name"
| byIfAttr: "map_of (structs c) name = Some s \<Longrightarrow> fld \<in> set (Fields s) \<Longrightarrow> hasIfAttr K fld \<Longrightarrow>
     varlenStruct K c name"
| byField: "map_of (structs c) name = Some s \<Longrightarrow> fld \<in> set (Fields s) \<Longrightarrow>
     varlenType K c (FldType fld) \<Longrightarrow> varlenStruct K c name"
| ofStruct: "getTypeDesc K c t = Some typeStruct \<Longrightarrow> varlenStruct K c (TIdent t) \<Longrightarrow>
     varlenType K c t"
| always: "getTypeDesc K c t \<noteq> Some typeStruct \<Longrightarrow> typeVarlen K t = AlwaysVarlen \<Longrightarrow>
     varlenType K c t"
| ofArg: "getTypeDesc K c t \<noteq> Some typeStruct \<Longrightarrow> typeVarlen K t = VarlenOfArg n \<Longrightarrow>
     n < length (TArgs t) \<Longrightarrow> varlenType K c (TArgs t ! n) \<Longrightarrow> varlenType K c t"

text \<open>
  For the proof: \<open>settled K c X t\<close> says that the type \<open>t\<close> is variable-length only if a
  struct of the set \<open>X\<close> is; \<open>closedAt K c X name\<close> that the struct \<open>name\<close> is
  variable-length only if a struct of \<open>X\<close> is. \<open>memoFalse\<close> is the set of names with the
  memo entry \<open>false\<close>, \<open>memoSound\<close> says that every entry \<open>true\<close> is right.
  \<open>stepResult\<close> is what a step of attribute parsing yields besides the state.
\<close>

inductive settled :: "'e checker \<Rightarrow> 'x compiler \<Rightarrow> string set \<Rightarrow> Type \<Rightarrow> bool"
  for K :: "'e checker" and c :: "'x compiler" and X :: "string set"
where
  inSet: "getTypeDesc K c t = Some typeStruct \<Longrightarrow> TIdent t \<in> X \<Longrightarrow> settled K c X t"
| never: "getTypeDesc K c t \<noteq> Some typeStruct \<Longrightarrow> typeVarlen K t = NeverVarlen \<Longrightarrow>
     settled K c X t"
| noArg: "getTypeDesc K c t \<noteq> Some typeStruct \<Longrightarrow> typeVarlen K t = VarlenOfArg n \<Longrightarrow>
     \<not> n < length (TArgs t) \<Longrightarrow> settled K c X t"
| arg: "getTypeDesc K c t \<noteq> Some typeStruct \<Longrightarrow> typeVarlen K t = VarlenOfArg n \<Longrightarrow>
     n < length (TArgs t) \<Longrightarrow> settled K c X (TArgs t ! n) \<Longrightarrow> settled K c X t"

definition closedAt :: "'e checker \<Rightarrow> 'x compiler \<Rightarrow> string set \<Rightarrow> string \<Rightarrow> bool" where
  "closedAt K c X name \<longleftrightarrow>
     (\<forall>s. map_of (structs c) name = Some s \<longrightarrow>
        \<not> fst (unionVarlen K s c) \<and>
        (\<forall>fld \<in> set (Fields s). \<not> hasIfAttr K fld \<and> settled K c X (FldType fld)))"

definition memoFalse :: "'x compiler \<Rightarrow> string set" where
  "memoFalse c = {n. structVarlen c n = Some False}"

definition memoSound :: "'e checker \<Rightarrow> 'x compiler \<Rightarrow> 'x compiler \<Rightarrow> bool" where
  "memoSound K c0 c \<longleftrightarrow> (\<forall>n. structVarlen c n = Some True \<longrightarrow> varlenStruct K c0 n)"

fun stepResult :: "('m, 'c) step \<Rightarrow> 'm option \<times> bool" where
  "stepResult (Next res c) = (Some res, True)"
| "stepResult (Return r c) = (r, False)"

text \<open>
  \<open>A { b B; x int8 (if[cond]) }\<close> and \<open>B { a A }\<close> contain each other;
  \<open>P { f0 int8; f1 int32 }\<close>; \<open>Q\<close> is \<open>P\<close> with an \<open>if\<close> attribute on \<open>f1\<close>;
  \<open>U\<close> is a union with the attribute \<open>varlen\<close>.
\<close>

definition structA :: StructDecl where
  "structA =
     \<lparr>SInfo = exDecl ''a.txt'' 1 ''struct'' ''A'',
      Fields = [field ''b'' (ident 2 ''B'' []) [],
                field ''x'' (ident 3 ''int8'' []) [ident 3 ''if'' [ident 3 ''cond'' []]]],
      Attrs = [], IsUnion = False\<rparr>"

definition structB :: StructDecl where
  "structB =
     \<lparr>SInfo = exDecl ''a.txt'' 5 ''struct'' ''B'',
      Fields = [field ''a'' (ident 6 ''A'' []) []],
      Attrs = [], IsUnion = False\<rparr>"

definition mutualComp :: "unit compiler" where
  "mutualComp = exComp\<lparr>structs := [(''A'', structA), (''B'', structB)]\<rparr>"

definition structP :: StructDecl where
  "structP =
     \<lparr>SInfo = exDecl ''a.txt'' 1 ''struct'' ''P'',
      Fields = [field ''f0'' (ident 2 ''int8'' []) [], field ''f1'' (ident 3 ''int32'' []) []],
      Attrs = [], IsUnion = False\<rparr>"

definition structQ :: StructDecl where
  "structQ =
     \<lparr>SInfo = exDecl ''a.txt'' 5 ''struct'' ''Q'',
      Fields = [field ''f0'' (ident 6 ''int8'' []) [],
                field ''f1'' (ident 7 ''int32'' []) [ident 7 ''if'' [ident 7 ''cond'' []]]],
      Attrs = [], IsUnion = False\<rparr>"

definition unionU :: StructDecl where
  "unionU =
     \<lparr>SInfo = exDecl ''a.txt'' 9 ''union'' ''U'',
      Fields = [field ''f0'' (ident 10 ''int8'' []) []],
      Attrs = [ident 11 ''varlen'' []], IsUnion = True\<rparr>"

definition plainComp :: "unit compiler" where
  "plainComp = exComp\<lparr>structs := [(''P'', structP), (''Q'', structQ), (''U'', unionU)]\<rparr>"

section \<open>Properties\<close>

subsection \<open>Termination of flattening\<close>

declare itoa.simps [simp del]


lemma keys_SetValues [simp]: "map fst (SetValues n vs al) = map fst al"
  unfolding SetValues_def by (induction al) auto

lemma flatten_dom_mono:
  "recurFlattenFlags_flattenValues_dom (Inl (gn :: 'v \<Rightarrow> string, name, flags, st)) \<Longrightarrow>
     recurFlattenFlags gn name flags st = Done u st' \<Longrightarrow>
     map fst (fst st') = map fst (fst st) \<and> insert name (snd st) \<subseteq> snd st'"
  "recurFlattenFlags_flattenValues_dom (Inr (gn :: 'v \<Rightarrow> string, ms, vals, st)) \<Longrightarrow>
     flattenValues gn ms vals st = Done vals' st' \<Longrightarrow>
     map fst (fst st') = map fst (fst st) \<and> snd st \<subseteq> snd st'"
proof (induction gn name flags st and gn ms vals st arbitrary: u st' and vals' st'
    rule: recurFlattenFlags_flattenValues.pinduct)
  case (1 gn name flags allFlags visited)
  then show ?case
    by (fastforce simp: recurFlattenFlags.psimps keys_SetValues split: if_splits outcome.splits)
next
  case (2 gn vals st)
  then show ?case by (simp add: flattenValues.psimps)
next
  case (3 gn flag rest vals allFlags visited)
  then show ?case
  proof (cases "map_of allFlags (gn flag)")
    case None
    with 3 show ?thesis by (simp add: flattenValues.psimps)
  next
    case (Some f)
    with 3(1,5) obtain al1 V1 f1 where
      r: "recurFlattenFlags gn (gn flag) f (allFlags, visited) = Done () (al1, V1)"
      and m: "map_of al1 (gn flag) = Some f1"
      and l: "flattenValues gn rest (vals @ Values f1) (al1, V1) = Done vals' st'"
      by (auto simp: flattenValues.psimps split: option.splits outcome.splits prod.splits)
    from 3(3)[OF Some r] have a: "map fst al1 = map fst allFlags" "visited \<subseteq> V1" by auto
    from 3(4)[OF Some r refl m l] have "map fst (fst st') = map fst al1" "V1 \<subseteq> snd st'" by auto
    with a show ?thesis by auto
  qed
qed

termination recurFlattenFlags
proof (relation "inv_image (less_than <*lex*> less_than <*lex*> less_than)
     (\<lambda>x. case x of
        Inl (gn, name, flags, (al, V)) \<Rightarrow>
          (card (fst ` set al - V), if name \<in> fst ` set al then 0 else (2::nat), 0::nat)
      | Inr (gn, ms, vals, (al, V)) \<Rightarrow> (card (fst ` set al - V), 1, length ms))", goal_cases)
  case 1
  show ?case by (intro wf_inv_image wf_lex_prod wf_less_than)
next
  case (2 gn name flags allFlags visited)
  have "name \<in> fst ` set allFlags \<Longrightarrow>
     card (fst ` set allFlags - insert name visited) < card (fst ` set allFlags - visited)"
    using 2 by (intro psubset_card_mono) auto
  moreover have "name \<notin> fst ` set allFlags \<Longrightarrow>
     fst ` set allFlags - insert name visited = fst ` set allFlags - visited" by auto
  ultimately show ?case by auto
next
  case 3
  then show ?case by simp
next
  case 4
  then show ?case by (auto simp: map_of_eq_None_iff[symmetric])
next
  case (5 gn flag rest vals allFlags visited f u st al' V' f')
  from flatten_dom_mono(1)[OF 5(5) 5(2)] 5(3)
  have k: "map fst al' = map fst allFlags" and v: "visited \<subseteq> V'"
    by (auto simp: fst_def snd_def split: prod.splits)
  have "fst ` set al' = fst ` set allFlags" using k by (metis image_set)
  then have "card (fst ` set al' - V') \<le> card (fst ` set allFlags - visited)"
    using v by (intro card_mono) auto
  then show ?case by auto
qed


subsection \<open>What a call of \<open>recurFlattenFlags\<close> may change\<close>

lemma frame_refl [simp]: "frame al V al V"
  by (simp add: frame_def)

lemma frame_trans: "frame al V al1 V1 \<Longrightarrow> frame al1 V1 al2 V2 \<Longrightarrow> frame al V al2 V2"
  unfolding frame_def by (metis subset_iff)

lemma map_of_SetValues:
  "map_of (SetValues name vals al) n =
     (if n = name then map_option (\<lambda>f. f\<lparr>Values := vals\<rparr>) (map_of al name) else map_of al n)"
  unfolding SetValues_def by (induction al) auto

lemma map_of_keys_eq: "map fst al' = map fst al \<Longrightarrow> (map_of al' n = None) = (map_of al n = None)"
  by (metis map_of_eq_None_iff image_set)

lemma flatten_frame:
  fixes gn :: "'v \<Rightarrow> string"
  shows "(case recurFlattenFlags gn name flags st of
            Done u st' \<Rightarrow> frame (fst st) (snd st) (fst st') (snd st') \<and> name \<notin> snd st \<and> name \<in> snd st'
          | Failed e st' \<Rightarrow> frame (fst st) (insert name (snd st)) (fst st') (snd st')
          | Panicked \<Rightarrow> False)"
    and "(case flattenValues gn ms vals st of
            Done vals' st' \<Rightarrow> frame (fst st) (snd st) (fst st') (snd st')
          | Failed e st' \<Rightarrow> frame (fst st) (snd st) (fst st') (snd st')
          | Panicked \<Rightarrow> False)"
proof (induction gn name flags st and gn ms vals st rule: recurFlattenFlags_flattenValues.induct)
  case (1 gn name flags allFlags visited)
  show ?case
  proof (cases "name \<in> visited")
    case True
    then show ?thesis by (simp add: insert_absorb)
  next
    case False
    show ?thesis
    proof (cases "flattenValues gn (Values flags) [] (allFlags, insert name visited)")
      case (Done vs st1)
      with 1[OF False] False have f: "frame allFlags (insert name visited) (fst st1) (snd st1)" by simp
      then have "frame allFlags visited (SetValues name vs (fst st1)) (snd st1)"
        using False unfolding frame_def by (auto simp: map_of_SetValues)
      with f Done False show ?thesis by (auto simp: frame_def split: prod.splits)
    next
      case (Failed e st1)
      with 1[OF False] False show ?thesis by simp
    next
      case Panicked
      with 1[OF False] False show ?thesis by simp
    qed
  qed
next
  case (2 gn vals st)
  show ?case by simp
next
  case (3 gn flag rest vals allFlags visited)
  show ?case
  proof (cases "map_of allFlags (gn flag)")
    case None
    with 3(1) show ?thesis by simp
  next
    case (Some f)
    show ?thesis
    proof (cases "recurFlattenFlags gn (gn flag) f (allFlags, visited)")
      case (Done u st1)
      obtain al1 V1 where st1: "st1 = (al1, V1)" by (cases st1)
      from 3(2)[OF Some] Done st1 have fr: "frame allFlags visited al1 V1" by simp
      then have "map_of al1 (gn flag) \<noteq> None"
        using Some map_of_keys_eq[of al1 allFlags "gn flag"] by (auto simp: frame_def)
      then obtain f1 where f1: "map_of al1 (gn flag) = Some f1" by auto
      from 3(3)[OF Some Done st1[symmetric] f1] fr
      show ?thesis using Some Done st1 f1
        by (auto split: outcome.splits intro: frame_trans)
    next
      case (Failed e st1)
      with 3(2)[OF Some] Some show ?thesis by (auto simp: frame_def)
    next
      case Panicked
      with 3(2)[OF Some] Some show ?thesis by simp
    qed
  qed
qed

declare recurFlattenFlags.simps [simp del]

lemma flattenValues_append:
  "flattenValues gn (pre @ rest) vals st =
     (case flattenValues gn pre vals st of
        Done v st1 \<Rightarrow> flattenValues gn rest v st1
      | Failed e s \<Rightarrow> Failed e s
      | Panicked \<Rightarrow> Panicked)"
proof (induction pre arbitrary: vals st)
  case Nil
  show ?case by simp
next
  case (Cons m pre)
  obtain al V where st: "st = (al, V)" by (cases st)
  show ?case unfolding st
    by (simp add: Cons split: option.splits outcome.splits prod.splits)
qed

lemma flattenValues_leaves:
  "\<forall>m \<in> set ms. map_of al (gn m) = None \<Longrightarrow> flattenValues gn ms vals (al, V) = Done (vals @ ms) (al, V)"
  by (induction ms arbitrary: vals) auto

lemma flattenValues_visits:
  "flattenValues gn ms vals (al, V) = Done vals' (al', V') \<Longrightarrow> m \<in> set ms \<Longrightarrow>
     map_of al (gn m) \<noteq> None \<Longrightarrow> gn m \<in> V'"
proof (induction ms arbitrary: vals al V)
  case Nil
  then show ?case by simp
next
  case (Cons a ms)
  show ?case
  proof (cases "map_of al (gn a)")
    case None
    with Cons.prems(1) have l: "flattenValues gn ms (vals @ [a]) (al, V) = Done vals' (al', V')"
      by simp
    from None Cons.prems(2,3) have "m \<in> set ms" by auto
    from Cons.IH[OF l this Cons.prems(3)] show ?thesis .
  next
    case (Some f)
    from Cons.prems(1) Some obtain st1 where
      r0: "recurFlattenFlags gn (gn a) f (al, V) = Done () st1"
      by (cases "recurFlattenFlags gn (gn a) f (al, V)") auto
    obtain al1 V1 where st1: "st1 = (al1, V1)" by (cases st1)
    note r = r0[unfolded st1]
    from Cons.prems(1) Some r
    have "\<exists>f1. map_of al1 (gn a) = Some f1 \<and>
        flattenValues gn ms (vals @ Values f1) (al1, V1) = Done vals' (al', V')"
      by (cases "map_of al1 (gn a)") auto
    then obtain f1 where "map_of al1 (gn a) = Some f1" and
      l: "flattenValues gn ms (vals @ Values f1) (al1, V1) = Done vals' (al', V')" by blast
    from flatten_frame(1)[where gn=gn and name="gn a" and flags=f and st="(al, V)"] r
    have fr: "frame al V al1 V1" and a: "gn a \<in> V1" by auto
    from flatten_frame(2)[where gn=gn and ms=ms and vals="vals @ Values f1" and st="(al1, V1)"] l
    have fr2: "frame al1 V1 al' V'" by auto
    show ?thesis
    proof (cases "m = a")
      case True
      with a fr2 show ?thesis by (auto simp: frame_def)
    next
      case False
      with Cons.prems have "m \<in> set ms" by simp
      moreover have "map_of al1 (gn m) \<noteq> None"
        using Cons.prems(3) fr map_of_keys_eq[of al1 al "gn m"] by (auto simp: frame_def)
      ultimately show ?thesis using Cons.IH[OF l] by blast
    qed
  qed
qed

subsection \<open>The ceiling of 100000 values\<close>

text \<open>
  Claim C4. Once the loop over the members of a group has produced the flattened list,
  \<open>recurFlattenFlags\<close> rejects a list of more than 100000 values with the error
  \<open>"<name> has more than 100000 values <n>"\<close> before \<open>SetValues\<close>: the entry of the group
  in \<open>allFlags\<close> is as it was before the call. A list of at most 100000 values passes the
  check and is committed with \<open>SetValues\<close>.
\<close>

theorem recurFlattenFlags_ceiling:
  assumes "name \<notin> visited"
    and "flattenValues gn (Values flags) [] (allFlags, insert name visited) = Done vals (allFlags', visited')"
  shows "(100000 < length vals \<longrightarrow>
            recurFlattenFlags gn name flags (allFlags, visited) =
              Failed (Errorf (tooManyMsg name (length vals))) (allFlags', visited')
            \<and> map_of allFlags' name = map_of allFlags name)
       \<and> (length vals \<le> 100000 \<longrightarrow>
            recurFlattenFlags gn name flags (allFlags, visited) =
              Done () (SetValues name vals allFlags', visited'))"
proof -
  from flatten_frame(2)[where gn=gn and ms="Values flags" and vals="[]" and st="(allFlags, insert name visited)"] assms(2)
  have "frame allFlags (insert name visited) allFlags' visited'" by simp
  then have "map_of allFlags' name = map_of allFlags name" by (simp add: frame_def)
  with assms show ?thesis by (simp add: recurFlattenFlags.simps)
qed

theorem recurFlattenFlags_ceiling_witness:
  "recurFlattenFlags Ident ''big'' (snd (grp ''big'' (replicate 100001 (lit 7))))
       ([grp ''big'' (replicate 100001 (lit 7))], {})
     = Failed (Errorf ''big has more than 100000 values 100001'')
         ([grp ''big'' (replicate 100001 (lit 7))], {''big''})
   \<and> recurFlattenFlags Ident ''ok'' (snd (grp ''ok'' (replicate 100000 (lit 7))))
       ([grp ''ok'' (replicate 100000 (lit 7))], {})
     = Done () ([grp ''ok'' (replicate 100000 (lit 7))], {''ok''})"
proof -
  let ?big = "replicate 100001 (lit 7)"
  let ?ok = "replicate 100000 (lit 7)"
  have l1: "flattenValues Ident (Values (snd (grp ''big'' ?big))) [] ([grp ''big'' ?big], insert ''big'' {})
      = Done ?big ([grp ''big'' ?big], {''big''})"
    using flattenValues_leaves[where ms="?big" and al="[grp ''big'' ?big]" and gn=Ident and vals="[]" and V="{''big''}"]
    by (simp add: grp_def lit_def)
  have l2: "flattenValues Ident (Values (snd (grp ''ok'' ?ok))) [] ([grp ''ok'' ?ok], insert ''ok'' {})
      = Done ?ok ([grp ''ok'' ?ok], {''ok''})"
    using flattenValues_leaves[where ms="?ok" and al="[grp ''ok'' ?ok]" and gn=Ident and vals="[]" and V="{''ok''}"]
    by (simp add: grp_def lit_def)
  have m: "tooManyMsg ''big'' 100001 = ''big has more than 100000 values 100001''"
    by (simp add: tooManyMsg_def itoa.simps digit_def)
  have s: "SetValues ''ok'' ?ok [grp ''ok'' ?ok] = [grp ''ok'' ?ok]"
    by (simp add: SetValues_def grp_def)
  from recurFlattenFlags_ceiling[OF _ l1] recurFlattenFlags_ceiling[OF _ l2] m s
  show ?thesis by simp
qed


subsection \<open>Groups that refer to themselves\<close>

lemma refs_transfer:
  assumes fr: "frame al V al1 V1" and p: "(a, g) \<in> (refs gn al)\<^sup>*" and g: "g \<in> V"
  shows "\<exists>h \<in> V1. (a, h) \<in> (refs gn al1)\<^sup>*"
  using p g
proof (induction rule: converse_rtrancl_induct)
  case base
  with fr show ?case by (auto simp: frame_def)
next
  case (step a b)
  show ?case
  proof (cases "a \<in> V1")
    case True
    then show ?thesis by blast
  next
    case False
    with fr have same: "map_of al1 a = map_of al a" by (simp add: frame_def)
    from step.hyps(1) obtain f m where
      e: "map_of al a = Some f" "m \<in> set (Values f)" "gn m = b" "map_of al b \<noteq> None"
      by (auto simp: refs_def)
    from fr e(4) have "map_of al1 b \<noteq> None"
      using map_of_keys_eq[of al1 al b] by (simp add: frame_def)
    with e same have "(a, b) \<in> refs gn al1" by (auto simp: refs_def)
    moreover from step.IH[OF step.prems] obtain h where "h \<in> V1" "(b, h) \<in> (refs gn al1)\<^sup>*"
      by blast
    ultimately show ?thesis by (meson converse_rtrancl_into_rtrancl)
  qed
qed

lemma flatten_done_avoids:
  fixes gn :: "'v \<Rightarrow> string"
  shows "recurFlattenFlags gn name flags st = Done u st' \<Longrightarrow> map_of (fst st) name = Some flags \<Longrightarrow>
           (\<forall>g. (name, g) \<in> (refs gn (fst st))\<^sup>* \<longrightarrow> g \<notin> snd st) \<and>
           (name, name) \<notin> (refs gn (fst st))\<^sup>+"
    and "flattenValues gn ms vals st = Done vals' st' \<Longrightarrow>
           (\<forall>m \<in> set ms. map_of (fst st) (gn m) \<noteq> None \<longrightarrow>
              (\<forall>g. (gn m, g) \<in> (refs gn (fst st))\<^sup>* \<longrightarrow> g \<notin> snd st))"
proof (induction gn name flags st and gn ms vals st arbitrary: u st' and vals' st'
    rule: recurFlattenFlags_flattenValues.induct)
  case (1 gn name flags allFlags visited)
  from "1.prems"(1) have nv: "name \<notin> visited"
    by (auto simp: recurFlattenFlags.simps split: if_splits)
  from "1.prems"(1) nv obtain vs st1 where
    l: "flattenValues gn (Values flags) [] (allFlags, insert name visited) = Done vs st1"
    by (auto simp: recurFlattenFlags.simps split: outcome.splits)
  from "1.IH"[OF nv l]
  have ih: "\<forall>m \<in> set (Values flags). map_of allFlags (gn m) \<noteq> None \<longrightarrow>
      (\<forall>g. (gn m, g) \<in> (refs gn allFlags)\<^sup>* \<longrightarrow> g \<notin> insert name visited)" by simp
  have succ: "\<And>h. (name, h) \<in> refs gn allFlags \<Longrightarrow>
      \<exists>m \<in> set (Values flags). gn m = h \<and> map_of allFlags h \<noteq> None"
    using "1.prems"(2) by (auto simp: refs_def)
  have a: "g \<notin> visited" if "(name, g) \<in> (refs gn allFlags)\<^sup>*" for g
  proof (cases "g = name")
    case True
    with nv show ?thesis by simp
  next
    case False
    with that obtain h where "(name, h) \<in> refs gn allFlags" "(h, g) \<in> (refs gn allFlags)\<^sup>*"
      by (metis converse_rtranclE)
    with succ ih show ?thesis by blast
  qed
  have b: "(name, name) \<notin> (refs gn allFlags)\<^sup>+"
  proof
    assume "(name, name) \<in> (refs gn allFlags)\<^sup>+"
    then obtain h where "(name, h) \<in> refs gn allFlags" "(h, name) \<in> (refs gn allFlags)\<^sup>*"
      by (meson tranclD)
    with succ ih show False by blast
  qed
  from a b show ?case by simp
next
  case (2 gn vals st)
  show ?case by simp
next
  case (3 gn flag rest vals allFlags visited)
  show ?case
  proof (cases "map_of allFlags (gn flag)")
    case None
    with "3.prems" have "flattenValues gn rest (vals @ [flag]) (allFlags, visited) = Done vals' st'"
      by simp
    from "3.IH"(1)[OF None this] None show ?thesis by auto
  next
    case (Some f)
    from "3.prems" Some obtain st1 where
      r0: "recurFlattenFlags gn (gn flag) f (allFlags, visited) = Done () st1"
      by (cases "recurFlattenFlags gn (gn flag) f (allFlags, visited)") auto
    obtain al1 V1 where st1: "st1 = (al1, V1)" by (cases st1)
    from "3.prems" Some r0 st1
    have "\<exists>f1. map_of al1 (gn flag) = Some f1 \<and>
        flattenValues gn rest (vals @ Values f1) (al1, V1) = Done vals' st'"
      by (cases "map_of al1 (gn flag)") auto
    then obtain f1 where f1: "map_of al1 (gn flag) = Some f1" and
      l: "flattenValues gn rest (vals @ Values f1) (al1, V1) = Done vals' st'" by blast
    from flatten_frame(1)[where gn=gn and name="gn flag" and flags=f and st="(allFlags, visited)"]
      r0 st1
    have fr: "frame allFlags visited al1 V1" by simp
    from "3.IH"(2)[OF Some r0] Some
    have h1: "\<forall>g. (gn flag, g) \<in> (refs gn allFlags)\<^sup>* \<longrightarrow> g \<notin> visited" by simp
    from "3.IH"(3)[OF Some r0 st1[symmetric] f1] l st1
    have h2: "\<forall>m \<in> set rest. map_of al1 (gn m) \<noteq> None \<longrightarrow>
        (\<forall>g. (gn m, g) \<in> (refs gn al1)\<^sup>* \<longrightarrow> g \<notin> V1)" by simp
    have "g \<notin> visited"
      if m: "m \<in> set rest" "map_of allFlags (gn m) \<noteq> None" "(gn m, g) \<in> (refs gn allFlags)\<^sup>*"
      for m g
    proof
      assume "g \<in> visited"
      from refs_transfer[OF fr m(3) this] obtain h where
        h: "h \<in> V1" "(gn m, h) \<in> (refs gn al1)\<^sup>*" by blast
      from fr m(2) have "map_of al1 (gn m) \<noteq> None"
        using map_of_keys_eq[of al1 allFlags "gn m"] by (simp add: frame_def)
      with h2 m(1) h show False by blast
    qed
    with h1 show ?thesis by auto
  qed
qed


lemma flatten_failed_shape:
  fixes gn :: "'v \<Rightarrow> string"
  shows "recurFlattenFlags gn name flags st = Failed e st' \<Longrightarrow>
           (\<exists>g. e = Errorf (usedTwiceMsg g) \<and> g \<in> snd st') \<or>
           (\<exists>g n. e = Errorf (tooManyMsg g n) \<and> 100000 < n)"
    and "flattenValues gn ms vals st = Failed e st' \<Longrightarrow>
           (\<exists>g. e = Errorf (usedTwiceMsg g) \<and> g \<in> snd st') \<or>
           (\<exists>g n. e = Errorf (tooManyMsg g n) \<and> 100000 < n)"
proof (induction gn name flags st and gn ms vals st arbitrary: e st' and e st'
    rule: recurFlattenFlags_flattenValues.induct)
  case (1 gn name flags allFlags visited)
  show ?case
  proof (cases "name \<in> visited")
    case True
    with "1.prems" show ?thesis by (auto simp: recurFlattenFlags.simps)
  next
    case False
    show ?thesis
    proof (cases "flattenValues gn (Values flags) [] (allFlags, insert name visited)")
      case (Done vs st1)
      with "1.prems" False show ?thesis
        by (auto simp: recurFlattenFlags.simps split: prod.splits if_splits)
    next
      case (Failed e1 st1)
      with "1.prems" False have "e1 = e" "st1 = st'" by (auto simp: recurFlattenFlags.simps)
      with "1.IH"[OF False] Failed show ?thesis by blast
    next
      case Panicked
      with "1.prems" False show ?thesis by (auto simp: recurFlattenFlags.simps)
    qed
  qed
next
  case (2 gn vals st)
  then show ?case by simp
next
  case (3 gn flag rest vals allFlags visited)
  show ?case
  proof (cases "map_of allFlags (gn flag)")
    case None
    with "3.prems" have "flattenValues gn rest (vals @ [flag]) (allFlags, visited) = Failed e st'"
      by simp
    from "3.IH"(1)[OF None this] show ?thesis .
  next
    case (Some f)
    show ?thesis
    proof (cases "recurFlattenFlags gn (gn flag) f (allFlags, visited)")
      case (Done u st1)
      obtain al1 V1 where st1: "st1 = (al1, V1)" by (cases st1)
      from "3.prems" Some Done st1
      have "\<exists>f1. map_of al1 (gn flag) = Some f1 \<and>
          flattenValues gn rest (vals @ Values f1) (al1, V1) = Failed e st'"
        by (cases "map_of al1 (gn flag)") auto
      then obtain f1 where f1: "map_of al1 (gn flag) = Some f1" and
        l: "flattenValues gn rest (vals @ Values f1) (al1, V1) = Failed e st'" by blast
      from "3.IH"(3)[OF Some Done st1[symmetric] f1] l st1 show ?thesis by simp
    next
      case (Failed e1 st1)
      with "3.prems" Some have "e1 = e" "st1 = st'" by auto
      with "3.IH"(2)[OF Some] Failed show ?thesis by blast
    next
      case Panicked
      with "3.prems" Some show ?thesis by simp
    qed
  qed
qed




subsection \<open>Groups whose expansion meets no group twice\<close>

lemma expands_leaves:
  "expands gn al name vs ns \<Longrightarrow> \<forall>v \<in> set vs. map_of al (gn v) = None"
  "expands_members gn al ms vs ns \<Longrightarrow> \<forall>v \<in> set vs. map_of al (gn v) = None"
  by (induction rule: expands_expands_members.inducts) auto

lemma expands_head: "expands gn al name vs ns \<Longrightarrow> name \<in> set ns \<and> map_of al name \<noteq> None"
  by (auto elim: expands.cases)

lemma SetValues_same:
  "map_of al name = Some f \<Longrightarrow> Values f = vs \<Longrightarrow> SetValues name vs al = al"
  unfolding SetValues_def by (induction al) (auto split: if_splits)

lemma expands_run:
  "expands gn al name vs ns \<Longrightarrow>
     (\<forall>al1 V flags. map fst al1 = map fst al \<longrightarrow> (\<forall>n \<in> set ns. map_of al1 n = map_of al n) \<longrightarrow>
        distinct ns \<longrightarrow> set ns \<inter> V = {} \<longrightarrow> length vs \<le> 100000 \<longrightarrow> map_of al name = Some flags \<longrightarrow>
        (\<exists>al2. recurFlattenFlags gn name flags (al1, V) = Done () (al2, V \<union> set ns) \<and>
               map_of al2 name = Some (flags\<lparr>Values := vs\<rparr>) \<and>
               map fst al2 = map fst al \<and> (\<forall>n. n \<notin> set ns \<longrightarrow> map_of al2 n = map_of al1 n)))"
  "expands_members gn al ms vs ns \<Longrightarrow>
     (\<forall>al1 V vals. map fst al1 = map fst al \<longrightarrow> (\<forall>n \<in> set ns. map_of al1 n = map_of al n) \<longrightarrow>
        distinct ns \<longrightarrow> set ns \<inter> V = {} \<longrightarrow> length vs \<le> 100000 \<longrightarrow>
        (\<exists>al2. flattenValues gn ms vals (al1, V) = Done (vals @ vs) (al2, V \<union> set ns) \<and>
               map fst al2 = map fst al \<and> (\<forall>n. n \<notin> set ns \<longrightarrow> map_of al2 n = map_of al1 n)))"
proof (induction rule: expands_expands_members.inducts)
  case (group name f vs ns)
  show ?case
  proof (intro allI impI)
    fix al1 :: "'a allFlags" and V flags
    assume k: "map fst al1 = map fst al"
      and same: "\<forall>n \<in> set (name # ns). map_of al1 n = map_of al n"
      and d: "distinct (name # ns)" and dis: "set (name # ns) \<inter> V = {}"
      and len: "length vs \<le> 100000" and fl: "map_of al name = Some flags"
    from fl group(1) have ff: "flags = f" by simp
    from dis have nv: "name \<notin> V" by auto
    from d dis same have p: "\<forall>n \<in> set ns. map_of al1 n = map_of al n" "distinct ns"
      "set ns \<inter> insert name V = {}" by auto
    from group(3)[rule_format, of al1 "insert name V" "[]", OF k p(1)[rule_format] p(2,3) len]
    obtain al2 where
      l: "flattenValues gn (Values f) [] (al1, insert name V) = Done ([] @ vs) (al2, insert name V \<union> set ns)"
      and k2: "map fst al2 = map fst al"
      and same2: "\<forall>n. n \<notin> set ns \<longrightarrow> map_of al2 n = map_of al1 n"
      by auto
    from d same same2 fl have e: "map_of al2 name = Some flags" by simp
    have r: "recurFlattenFlags gn name flags (al1, V) =
        Done () (SetValues name vs al2, V \<union> set (name # ns))"
      using nv l len ff by (simp add: recurFlattenFlags.simps)
    moreover have "map_of (SetValues name vs al2) name = Some (flags\<lparr>Values := vs\<rparr>)"
      using e by (simp add: map_of_SetValues)
    moreover have "\<forall>n. n \<notin> set (name # ns) \<longrightarrow> map_of (SetValues name vs al2) n = map_of al1 n"
      using same2 by (simp add: map_of_SetValues)
    ultimately show "\<exists>al2. recurFlattenFlags gn name flags (al1, V) = Done () (al2, V \<union> set (name # ns)) \<and>
               map_of al2 name = Some (flags\<lparr>Values := vs\<rparr>) \<and>
               map fst al2 = map fst al \<and> (\<forall>n. n \<notin> set (name # ns) \<longrightarrow> map_of al2 n = map_of al1 n)"
      using k2 by (intro exI[of _ "SetValues name vs al2"]) simp
  qed
next
  case nil
  show ?case by simp
next
  case (leaf m ms vs ns)
  show ?case
  proof (intro allI impI)
    fix al1 :: "'a allFlags" and V vals
    assume k: "map fst al1 = map fst al"
      and same: "\<forall>n \<in> set ns. map_of al1 n = map_of al n"
      and d: "distinct ns" and dis: "set ns \<inter> V = {}"
      and len: "length (m # vs) \<le> 100000"
    from leaf(1) k have "map_of al1 (gn m) = None"
      using map_of_keys_eq[of al1 al "gn m"] by simp
    moreover from len have len': "length vs \<le> 100000" by simp
    from leaf(3)[rule_format, of al1 V "vals @ [m]", OF k same[rule_format] d dis len']
    obtain al2 where "flattenValues gn ms (vals @ [m]) (al1, V) = Done ((vals @ [m]) @ vs) (al2, V \<union> set ns)"
      "map fst al2 = map fst al" "\<forall>n. n \<notin> set ns \<longrightarrow> map_of al2 n = map_of al1 n"
      by auto
    ultimately show "\<exists>al2. flattenValues gn (m # ms) vals (al1, V) = Done (vals @ m # vs) (al2, V \<union> set ns) \<and>
               map fst al2 = map fst al \<and> (\<forall>n. n \<notin> set ns \<longrightarrow> map_of al2 n = map_of al1 n)"
      by auto
  qed
next
  case (sub m vs1 ns1 ms vs2 ns2)
  show ?case
  proof (intro allI impI)
    fix al1 :: "'a allFlags" and V vals
    assume k: "map fst al1 = map fst al"
      and same: "\<forall>n \<in> set (ns1 @ ns2). map_of al1 n = map_of al n"
      and d: "distinct (ns1 @ ns2)" and dis: "set (ns1 @ ns2) \<inter> V = {}"
      and len: "length (vs1 @ vs2) \<le> 100000"
    from expands_head[OF sub(1)] obtain f where
      f: "map_of al (gn m) = Some f" and hd: "gn m \<in> set ns1" by auto
    with same have f1: "map_of al1 (gn m) = Some f" by simp
    from same d dis len have p1: "\<forall>n \<in> set ns1. map_of al1 n = map_of al n" "distinct ns1"
      "set ns1 \<inter> V = {}" "length vs1 \<le> 100000" by auto
    from sub(2)[rule_format, of al1 V f, OF k p1(1)[rule_format] p1(2-4) f]
    obtain al2 where
      r: "recurFlattenFlags gn (gn m) f (al1, V) = Done () (al2, V \<union> set ns1)"
      and e2: "map_of al2 (gn m) = Some (f\<lparr>Values := vs1\<rparr>)"
      and k2: "map fst al2 = map fst al"
      and same2: "\<forall>n. n \<notin> set ns1 \<longrightarrow> map_of al2 n = map_of al1 n"
      by auto
    have same3: "\<forall>n \<in> set ns2. map_of al2 n = map_of al n"
      using same same2 d by auto
    from d dis len have p2: "distinct ns2" "set ns2 \<inter> (V \<union> set ns1) = {}"
      "length vs2 \<le> 100000" by auto
    from sub(4)[rule_format, of al2 "V \<union> set ns1" "vals @ vs1", OF k2 same3[rule_format] p2]
    obtain al3 where
      l: "flattenValues gn ms (vals @ vs1) (al2, V \<union> set ns1) =
            Done ((vals @ vs1) @ vs2) (al3, (V \<union> set ns1) \<union> set ns2)"
      and k3: "map fst al3 = map fst al"
      and same4: "\<forall>n. n \<notin> set ns2 \<longrightarrow> map_of al3 n = map_of al2 n"
      by auto
    have "flattenValues gn (m # ms) vals (al1, V) = Done (vals @ vs1 @ vs2) (al3, V \<union> set (ns1 @ ns2))"
      using f1 r e2 l by (simp add: Un_assoc)
    moreover have "\<forall>n. n \<notin> set (ns1 @ ns2) \<longrightarrow> map_of al3 n = map_of al1 n"
      using same2 same4 by simp
    ultimately show "\<exists>al2. flattenValues gn (m # ms) vals (al1, V) =
          Done (vals @ vs1 @ vs2) (al2, V \<union> set (ns1 @ ns2)) \<and>
               map fst al2 = map fst al \<and> (\<forall>n. n \<notin> set (ns1 @ ns2) \<longrightarrow> map_of al2 n = map_of al1 n)"
      using k3 by blast
  qed
qed


text \<open>
  Claim C3, as stated, fails on \<open>A = B, B\<close>; \<open>B = 1\<close>: no group of the table refers to
  itself, and flattening \<open>A\<close> is an error.
\<close>

theorem recurFlattenFlags_acyclic_rejected:
  "(\<forall>g. (g, g) \<notin> (refs Ident usedTwice)\<^sup>+)
   \<and> recurFlattenFlags Ident ''A'' (snd (grp ''A'' [ref ''B'', ref ''B''])) (usedTwice, {}) =
       Failed (Errorf ''flags B used twice or circular dependency on B'') (usedTwice, {''A'', ''B''})"
proof -
  have e: "refs Ident usedTwice = {(''A'', ''B'')}"
    by (auto simp: refs_def usedTwice_def grp_def ref_def lit_def split: if_splits)
  have a: "\<forall>g. (g, g) \<notin> (refs Ident usedTwice)\<^sup>+"
    unfolding e by (auto dest!: tranclD elim: converse_rtranclE)
  have d: "recurFlattenFlags Ident ''A'' (snd (grp ''A'' [ref ''B'', ref ''B''])) (usedTwice, {}) =
       Failed (Errorf ''flags B used twice or circular dependency on B'') (usedTwice, {''A'', ''B''})"
    by (simp add: usedTwice_def grp_def ref_def lit_def recurFlattenFlags.simps SetValues_def
        usedTwiceMsg_def insert_commute)
  from a d show ?thesis by blast
qed

text \<open>
  Claim C3, amended. When the expansion of a flag group meets no flag group twice and has
  at most 100000 leaves, \<open>recurFlattenFlags\<close> (a total function: it terminates on every
  input) succeeds from the empty visited set, the \<open>Values\<close> of the group become the list
  of the leaves reached, so their number is the sum of the leaf counts, and flattening
  the group once more leaves the table as it is.
\<close>

theorem recurFlattenFlags_tree:
  assumes "map_of allFlags name = Some flags"
    and "expands gn allFlags name vs ns"
    and "distinct ns"
    and "length vs \<le> 100000"
  shows "\<exists>allFlags'.
           recurFlattenFlags gn name flags (allFlags, {}) = Done () (allFlags', set ns)
         \<and> map_of allFlags' name = Some (flags\<lparr>Values := vs\<rparr>)
         \<and> length (Values (flags\<lparr>Values := vs\<rparr>)) = length vs
         \<and> recurFlattenFlags gn name (flags\<lparr>Values := vs\<rparr>) (allFlags', {}) =
             Done () (allFlags', {name})"
proof -
  from expands_run(1)[OF assms(2), rule_format, of allFlags "{}" flags] assms
  obtain al2 where
    r: "recurFlattenFlags gn name flags (allFlags, {}) = Done () (al2, set ns)"
    and e: "map_of al2 name = Some (flags\<lparr>Values := vs\<rparr>)"
    and k: "map fst al2 = map fst allFlags"
    by auto
  from expands_leaves(1)[OF assms(2)] k
  have "\<forall>v \<in> set vs. map_of al2 (gn v) = None"
    using map_of_keys_eq[of al2 allFlags] by blast
  from flattenValues_leaves[OF this, of "[]" "{name}"]
  have "flattenValues gn (Values (flags\<lparr>Values := vs\<rparr>)) [] (al2, insert name {}) =
      Done vs (al2, {name})" by simp
  moreover have "SetValues name vs al2 = al2"
    using SetValues_same[OF e] by simp
  ultimately have "recurFlattenFlags gn name (flags\<lparr>Values := vs\<rparr>) (al2, {}) = Done () (al2, {name})"
    using assms(4) by (simp add: recurFlattenFlags.simps)
  with r e show ?thesis by auto
qed

theorem recurFlattenFlags_tree_witness:
  "map_of nested ''A'' = Some (snd (grp ''A'' [lit 1, lit 2, ref ''B'']))
   \<and> expands Ident nested ''A'' [lit 1, lit 2, lit 3, lit 4] [''A'', ''B'']
   \<and> distinct [''A'', ''B'']
   \<and> length [lit 1, lit 2, lit 3, lit 4] \<le> 100000
   \<and> recurFlattenFlags Ident ''A'' (snd (grp ''A'' [lit 1, lit 2, ref ''B''])) (nested, {}) =
       Done () (nested1, {''A'', ''B''})
   \<and> recurFlattenFlags Ident ''A'' (snd (grp ''A'' [lit 1, lit 2, lit 3, lit 4])) (nested1, {}) =
       Done () (nested1, {''A''})"
proof -
  have a: "map_of nested ''A'' = Some (snd (grp ''A'' [lit 1, lit 2, ref ''B'']))"
    by (simp add: nested_def grp_def)
  have b0: "expands Ident nested ''B'' [lit 3, lit 4] [''B'']"
    by (rule expands_expands_members.group[where f = "snd (grp ''B'' [lit 3, lit 4])"])
       (auto simp: nested_def grp_def lit_def intro!: expands_expands_members.intros)
  have "expands Ident nested (Ident (ref ''B'')) [lit 3, lit 4] [''B'']"
    using b0 by (simp add: ref_def)
  from expands_expands_members.sub[OF this expands_expands_members.nil]
  have "expands_members Ident nested [ref ''B''] [lit 3, lit 4] [''B'']" by simp
  then have "expands_members Ident nested [lit 1, lit 2, ref ''B''] [lit 1, lit 2, lit 3, lit 4] [''B'']"
    by (auto simp: nested_def grp_def lit_def intro!: expands_expands_members.leaf)
  then have b: "expands Ident nested ''A'' [lit 1, lit 2, lit 3, lit 4] [''A'', ''B'']"
    by (intro expands_expands_members.group[where f = "snd (grp ''A'' [lit 1, lit 2, ref ''B''])"])
       (simp_all add: nested_def grp_def)
  have c: "distinct [''A'', ''B'']" by simp
  have d: "length [lit 1, lit 2, lit 3, lit 4] \<le> 100000" by simp
  from recurFlattenFlags_tree[OF a b c d]
  obtain al' where
    r: "recurFlattenFlags Ident ''A'' (snd (grp ''A'' [lit 1, lit 2, ref ''B''])) (nested, {}) =
         Done () (al', set [''A'', ''B''])"
    and i: "recurFlattenFlags Ident ''A''
         ((snd (grp ''A'' [lit 1, lit 2, ref ''B'']))\<lparr>Values := [lit 1, lit 2, lit 3, lit 4]\<rparr>) (al', {}) =
         Done () (al', {''A''})"
    by blast
  have "recurFlattenFlags Ident ''A'' (snd (grp ''A'' [lit 1, lit 2, ref ''B''])) (nested, {}) =
       Done () (nested1, {''A'', ''B''})"
    by (simp add: nested_def nested1_def grp_def ref_def lit_def recurFlattenFlags.simps SetValues_def
        insert_commute)
  with r have "al' = nested1" by simp
  with r i a b show ?thesis by (simp add: grp_def)
qed

subsection \<open>A name met twice\<close>

lemma firstRepeat_append:
  "firstRepeat V (xs @ ys) =
     (case firstRepeat V xs of Some g \<Rightarrow> Some g | None \<Rightarrow> firstRepeat (V \<union> set xs) ys)"
  by (induction xs arbitrary: V) (auto split: option.splits)

lemma firstRepeat_None: "firstRepeat V ns = None \<longleftrightarrow> distinct ns \<and> set ns \<inter> V = {}"
  by (induction ns arbitrary: V) auto

lemma expands_repeat:
  "expands gn al name vs ns \<Longrightarrow>
     (\<forall>al1 V flags. map fst al1 = map fst al \<longrightarrow>
        (\<forall>n \<in> set ns. n \<notin> V \<longrightarrow> map_of al1 n = map_of al n) \<longrightarrow>
        map_of al1 name = Some flags \<longrightarrow>
        (\<exists>g k st. recurFlattenFlags gn name flags (al1, V) = Failed (Errorf (tooManyMsg g k)) st \<and>
           100000 < k \<and> k \<le> length vs)
        \<or> (case firstRepeat V ns of
              None \<Rightarrow>
                (\<exists>al2. recurFlattenFlags gn name flags (al1, V) = Done () (al2, V \<union> set ns) \<and>
                   map_of al2 name = Some (flags\<lparr>Values := vs\<rparr>) \<and>
                   map fst al2 = map fst al \<and> (\<forall>n. n \<notin> set ns \<longrightarrow> map_of al2 n = map_of al1 n))
            | Some g \<Rightarrow>
                (\<exists>st. recurFlattenFlags gn name flags (al1, V) = Failed (Errorf (usedTwiceMsg g)) st)))"
  "expands_members gn al ms vs ns \<Longrightarrow>
     (\<forall>al1 V vals. map fst al1 = map fst al \<longrightarrow>
        (\<forall>n \<in> set ns. n \<notin> V \<longrightarrow> map_of al1 n = map_of al n) \<longrightarrow>
        (\<exists>g k st. flattenValues gn ms vals (al1, V) = Failed (Errorf (tooManyMsg g k)) st \<and>
           100000 < k \<and> k \<le> length vs)
        \<or> (case firstRepeat V ns of
              None \<Rightarrow>
                (\<exists>al2. flattenValues gn ms vals (al1, V) = Done (vals @ vs) (al2, V \<union> set ns) \<and>
                   map fst al2 = map fst al \<and> (\<forall>n. n \<notin> set ns \<longrightarrow> map_of al2 n = map_of al1 n))
            | Some g \<Rightarrow>
                (\<exists>st. flattenValues gn ms vals (al1, V) = Failed (Errorf (usedTwiceMsg g)) st)))"
proof (induction rule: expands_expands_members.inducts)
  case (group name f vs ns)
  show ?case
  proof (intro allI impI)
    fix al1 :: "'a allFlags" and V flags
    assume k: "map fst al1 = map fst al"
      and same: "\<forall>n \<in> set (name # ns). n \<notin> V \<longrightarrow> map_of al1 n = map_of al n"
      and fl: "map_of al1 name = Some flags"
    let ?R = "recurFlattenFlags gn name flags (al1, V)"
    show "(\<exists>g k st. ?R = Failed (Errorf (tooManyMsg g k)) st \<and> 100000 < k \<and> k \<le> length vs)
        \<or> (case firstRepeat V (name # ns) of
              None \<Rightarrow>
                (\<exists>al2. ?R = Done () (al2, V \<union> set (name # ns)) \<and>
                   map_of al2 name = Some (flags\<lparr>Values := vs\<rparr>) \<and>
                   map fst al2 = map fst al \<and> (\<forall>n. n \<notin> set (name # ns) \<longrightarrow> map_of al2 n = map_of al1 n))
            | Some g \<Rightarrow> (\<exists>st. ?R = Failed (Errorf (usedTwiceMsg g)) st))"
    proof (cases "name \<in> V")
      case True
      then have "?R = Failed (Errorf (usedTwiceMsg name)) (al1, V)"
        by (simp add: recurFlattenFlags.simps)
      with True show ?thesis by simp
    next
      case nv: False
      with same fl group(1) have ff: "flags = f" by simp
      from same have p: "\<forall>n \<in> set ns. n \<notin> insert name V \<longrightarrow> map_of al1 n = map_of al n" by simp
      let ?L = "flattenValues gn (Values f) [] (al1, insert name V)"
      from group(3)[THEN spec[where x = al1], THEN spec[where x = "insert name V"],
          THEN spec[where x = "[]"], THEN mp, THEN mp, OF k p]
      consider (big) g k st where "?L = Failed (Errorf (tooManyMsg g k)) st" "100000 < k" "k \<le> length vs"
        | (twice) g st where "firstRepeat (insert name V) ns = Some g"
            "?L = Failed (Errorf (usedTwiceMsg g)) st"
        | (fine) al2 where "firstRepeat (insert name V) ns = None"
            "?L = Done vs (al2, insert name V \<union> set ns)" "map fst al2 = map fst al"
            "\<forall>n. n \<notin> set ns \<longrightarrow> map_of al2 n = map_of al1 n"
        by (cases "firstRepeat (insert name V) ns") auto
      then show ?thesis
      proof cases
        case big
        then have "?R = Failed (Errorf (tooManyMsg g k)) st"
          using nv ff by (simp add: recurFlattenFlags.simps)
        with big show ?thesis by blast
      next
        case twice
        then have "?R = Failed (Errorf (usedTwiceMsg g)) st"
          using nv ff by (simp add: recurFlattenFlags.simps)
        with twice nv show ?thesis by simp
      next
        case fine
        show ?thesis
        proof (cases "100000 < length vs")
          case True
          with fine have "?R = Failed (Errorf (tooManyMsg name (length vs))) (al2, insert name V \<union> set ns)"
            using nv ff by (simp add: recurFlattenFlags.simps)
          with True show ?thesis by blast
        next
          case False
          with fine have r: "?R = Done () (SetValues name vs al2, V \<union> set (name # ns))"
            using nv ff by (simp add: recurFlattenFlags.simps)
          from fine(1) have "name \<notin> set ns" by (auto simp: firstRepeat_None)
          with fine(4) fl have "map_of al2 name = Some flags" by simp
          then have e: "map_of (SetValues name vs al2) name = Some (flags\<lparr>Values := vs\<rparr>)"
            by (simp add: map_of_SetValues)
          have o: "\<forall>n. n \<notin> set (name # ns) \<longrightarrow> map_of (SetValues name vs al2) n = map_of al1 n"
            using fine(4) by (simp add: map_of_SetValues)
          have "\<exists>al3. ?R = Done () (al3, V \<union> set (name # ns)) \<and>
                   map_of al3 name = Some (flags\<lparr>Values := vs\<rparr>) \<and>
                   map fst al3 = map fst al \<and> (\<forall>n. n \<notin> set (name # ns) \<longrightarrow> map_of al3 n = map_of al1 n)"
            using r e o fine(3) by (intro exI[of _ "SetValues name vs al2"]) simp
          with fine(1) nv show ?thesis by simp
        qed
      qed
    qed
  qed
next
  case nil
  show ?case by simp
next
  case (leaf m ms vs ns)
  show ?case
  proof (intro allI impI)
    fix al1 :: "'a allFlags" and V vals
    assume k: "map fst al1 = map fst al"
      and same: "\<forall>n \<in> set ns. n \<notin> V \<longrightarrow> map_of al1 n = map_of al n"
    from leaf(1) k have n: "map_of al1 (gn m) = None"
      using map_of_keys_eq[of al1 al "gn m"] by simp
    then have s: "flattenValues gn (m # ms) vals (al1, V) = flattenValues gn ms (vals @ [m]) (al1, V)"
      by simp
    from leaf(3)[THEN spec[where x = al1], THEN spec[where x = V],
        THEN spec[where x = "vals @ [m]"], THEN mp, THEN mp, OF k same]
    show "(\<exists>g k st. flattenValues gn (m # ms) vals (al1, V) = Failed (Errorf (tooManyMsg g k)) st \<and>
           100000 < k \<and> k \<le> length (m # vs))
        \<or> (case firstRepeat V ns of
              None \<Rightarrow>
                (\<exists>al2. flattenValues gn (m # ms) vals (al1, V) = Done (vals @ m # vs) (al2, V \<union> set ns) \<and>
                   map fst al2 = map fst al \<and> (\<forall>n. n \<notin> set ns \<longrightarrow> map_of al2 n = map_of al1 n))
            | Some g \<Rightarrow>
                (\<exists>st. flattenValues gn (m # ms) vals (al1, V) = Failed (Errorf (usedTwiceMsg g)) st))"
      unfolding s by (cases "firstRepeat V ns") (auto intro: le_SucI)
  qed
next
  case (sub m vs1 ns1 ms vs2 ns2)
  show ?case
  proof (intro allI impI)
    fix al1 :: "'a allFlags" and V vals
    assume k: "map fst al1 = map fst al"
      and same: "\<forall>n \<in> set (ns1 @ ns2). n \<notin> V \<longrightarrow> map_of al1 n = map_of al n"
    let ?L = "flattenValues gn (m # ms) vals (al1, V)"
    from expands_head[OF sub(1)] k have "map_of al1 (gn m) \<noteq> None"
      using map_of_keys_eq[of al1 al "gn m"] by simp
    then obtain f1 where f1: "map_of al1 (gn m) = Some f1" by auto
    let ?R = "recurFlattenFlags gn (gn m) f1 (al1, V)"
    from same have p1: "\<forall>n \<in> set ns1. n \<notin> V \<longrightarrow> map_of al1 n = map_of al n" by simp
    from sub(2)[THEN spec[where x = al1], THEN spec[where x = V],
        THEN spec[where x = f1], THEN mp, THEN mp, THEN mp, OF k p1 f1]
    consider (big) g k st where "?R = Failed (Errorf (tooManyMsg g k)) st" "100000 < k" "k \<le> length vs1"
      | (twice) g st where "firstRepeat V ns1 = Some g" "?R = Failed (Errorf (usedTwiceMsg g)) st"
      | (fine) al2 where "firstRepeat V ns1 = None" "?R = Done () (al2, V \<union> set ns1)"
          "map_of al2 (gn m) = Some (f1\<lparr>Values := vs1\<rparr>)" "map fst al2 = map fst al"
          "\<forall>n. n \<notin> set ns1 \<longrightarrow> map_of al2 n = map_of al1 n"
      by (cases "firstRepeat V ns1") auto
    then show "(\<exists>g k st. ?L = Failed (Errorf (tooManyMsg g k)) st \<and> 100000 < k \<and> k \<le> length (vs1 @ vs2))
        \<or> (case firstRepeat V (ns1 @ ns2) of
              None \<Rightarrow>
                (\<exists>al2. ?L = Done (vals @ vs1 @ vs2) (al2, V \<union> set (ns1 @ ns2)) \<and>
                   map fst al2 = map fst al \<and> (\<forall>n. n \<notin> set (ns1 @ ns2) \<longrightarrow> map_of al2 n = map_of al1 n))
            | Some g \<Rightarrow> (\<exists>st. ?L = Failed (Errorf (usedTwiceMsg g)) st))"
    proof cases
      case big
      then have "?L = Failed (Errorf (tooManyMsg g k)) st" using f1 by simp
      moreover from big have "k \<le> length (vs1 @ vs2)" by simp
      ultimately show ?thesis using big(2) by blast
    next
      case twice
      then have "?L = Failed (Errorf (usedTwiceMsg g)) st" using f1 by simp
      with twice show ?thesis by (simp add: firstRepeat_append)
    next
      case fine
      have s: "?L = flattenValues gn ms (vals @ vs1) (al2, V \<union> set ns1)"
        using f1 fine(2,3) by simp
      have same2: "\<forall>n \<in> set ns2. n \<notin> V \<union> set ns1 \<longrightarrow> map_of al2 n = map_of al n"
        using same fine(5) by auto
      have fr: "firstRepeat V (ns1 @ ns2) = firstRepeat (V \<union> set ns1) ns2"
        using fine(1) by (simp add: firstRepeat_append)
      from sub(4)[THEN spec[where x = al2], THEN spec[where x = "V \<union> set ns1"],
          THEN spec[where x = "vals @ vs1"], THEN mp, THEN mp, OF fine(4) same2]
      show ?thesis
      proof (elim disjE exE conjE)
        fix g k st
        assume "flattenValues gn ms (vals @ vs1) (al2, V \<union> set ns1) = Failed (Errorf (tooManyMsg g k)) st"
          "100000 < k" "k \<le> length vs2"
        then show ?thesis unfolding s by (intro disjI1 exI[of _ g] exI[of _ k] exI[of _ st]) simp
      next
        assume a: "case firstRepeat (V \<union> set ns1) ns2 of
            None \<Rightarrow> \<exists>al3. flattenValues gn ms (vals @ vs1) (al2, V \<union> set ns1) =
                     Done ((vals @ vs1) @ vs2) (al3, V \<union> set ns1 \<union> set ns2) \<and>
                  map fst al3 = map fst al \<and> (\<forall>n. n \<notin> set ns2 \<longrightarrow> map_of al3 n = map_of al2 n)
          | Some g \<Rightarrow> \<exists>st. flattenValues gn ms (vals @ vs1) (al2, V \<union> set ns1) =
                     Failed (Errorf (usedTwiceMsg g)) st"
        show ?thesis
        proof (cases "firstRepeat (V \<union> set ns1) ns2")
          case None
          with a obtain al3 where
            "flattenValues gn ms (vals @ vs1) (al2, V \<union> set ns1) =
                     Done ((vals @ vs1) @ vs2) (al3, V \<union> set ns1 \<union> set ns2)"
            "map fst al3 = map fst al" "\<forall>n. n \<notin> set ns2 \<longrightarrow> map_of al3 n = map_of al2 n"
            by auto
          with fine(5) None show ?thesis unfolding s fr
            by (intro disjI2) (auto simp: Un_assoc)
        next
          case (Some g)
          with a show ?thesis unfolding s fr by (intro disjI2) simp
        qed
      qed
    qed
  qed
qed


lemma expands_transfer:
  "expands gn al1 name vs ns \<Longrightarrow>
     map fst al = map fst al1 \<longrightarrow> (\<forall>n \<in> set ns. map_of al n = map_of al1 n) \<longrightarrow>
     expands gn al name vs ns"
  "expands_members gn al1 ms vs ns \<Longrightarrow>
     map fst al = map fst al1 \<longrightarrow> (\<forall>n \<in> set ns. map_of al n = map_of al1 n) \<longrightarrow>
     expands_members gn al ms vs ns"
proof (induction rule: expands_expands_members.inducts)
  case (group name f vs ns)
  then show ?case by (auto intro: expands_expands_members.group)
next
  case nil
  show ?case by (simp add: expands_expands_members.nil)
next
  case (leaf m ms vs ns)
  show ?case
  proof (intro impI)
    assume k: "map fst al = map fst al1" and e: "\<forall>n \<in> set ns. map_of al n = map_of al1 n"
    from leaf(1) k have "map_of al (gn m) = None" using map_of_keys_eq[of al al1 "gn m"] by simp
    moreover from leaf(3) k e have "expands_members gn al ms vs ns" by simp
    ultimately show "expands_members gn al (m # ms) (m # vs) ns"
      by (rule expands_expands_members.leaf)
  qed
next
  case (sub m vs1 ns1 ms vs2 ns2)
  then show ?case by (auto intro: expands_expands_members.sub)
qed

lemma flatten_done_expands:
  fixes gn :: "'v \<Rightarrow> string"
  shows "recurFlattenFlags gn name flags st = Done u st' \<Longrightarrow> map_of (fst st) name = Some flags \<Longrightarrow>
           \<exists>vs ns. expands gn (fst st) name vs ns \<and> distinct ns \<and> set ns \<inter> snd st = {} \<and>
             snd st' = snd st \<union> set ns \<and> map_of (fst st') name = Some (flags\<lparr>Values := vs\<rparr>) \<and>
             length vs \<le> 100000"
    and "flattenValues gn ms vals st = Done vals' st' \<Longrightarrow>
           \<exists>vs ns. expands_members gn (fst st) ms vs ns \<and> distinct ns \<and> set ns \<inter> snd st = {} \<and>
             snd st' = snd st \<union> set ns \<and> vals' = vals @ vs"
proof (induction gn name flags st and gn ms vals st arbitrary: u st' and vals' st'
    rule: recurFlattenFlags_flattenValues.induct)
  case (1 gn name flags allFlags visited)
  from "1.prems"(1) have nv: "name \<notin> visited"
    by (auto simp: recurFlattenFlags.simps split: if_splits)
  from "1.prems"(1) nv obtain vs0 al1 V1 where
    l: "flattenValues gn (Values flags) [] (allFlags, insert name visited) = Done vs0 (al1, V1)"
    and len: "length vs0 \<le> 100000" and st': "st' = (SetValues name vs0 al1, V1)"
    by (auto simp: recurFlattenFlags.simps split: outcome.splits if_splits)
  from "1.IH"[OF nv l] obtain vs ns where
    e: "expands_members gn allFlags (Values flags) vs ns" and d: "distinct ns"
    and dis: "set ns \<inter> insert name visited = {}" and v: "V1 = insert name visited \<union> set ns"
    and vs: "vs0 = vs"
    by auto
  from "1.prems"(2) e have x: "expands gn allFlags name vs (name # ns)"
    by (auto intro: expands_expands_members.group)
  from flatten_frame(2)[where gn=gn and ms="Values flags" and vals="[]" and st="(allFlags, insert name visited)"] l
  have "frame allFlags (insert name visited) al1 V1" by simp
  then have "map_of al1 name = map_of allFlags name" by (simp add: frame_def)
  with "1.prems"(2) have m: "map_of (SetValues name vs al1) name = Some (flags\<lparr>Values := vs\<rparr>)"
    by (simp add: map_of_SetValues)
  have "distinct (name # ns)" "set (name # ns) \<inter> visited = {}" "V1 = visited \<union> set (name # ns)"
    using d dis nv v by auto
  with x m len vs st' show ?case
    by (intro exI[of _ vs] exI[of _ "name # ns"]) simp
next
  case (2 gn vals st)
  then show ?case by (auto intro: expands_expands_members.nil)
next
  case (3 gn flag rest vals allFlags visited)
  show ?case
  proof (cases "map_of allFlags (gn flag)")
    case None
    with "3.prems" have "flattenValues gn rest (vals @ [flag]) (allFlags, visited) = Done vals' st'"
      by simp
    from "3.IH"(1)[OF None this] obtain vs ns where
      "expands_members gn allFlags rest vs ns" "distinct ns" "set ns \<inter> visited = {}"
      "snd st' = visited \<union> set ns" "vals' = (vals @ [flag]) @ vs" by auto
    with None show ?thesis
      by (intro exI[of _ "flag # vs"] exI[of _ ns]) (auto intro: expands_expands_members.leaf)
  next
    case (Some f)
    from "3.prems" Some obtain st1 where
      r0: "recurFlattenFlags gn (gn flag) f (allFlags, visited) = Done () st1"
      by (cases "recurFlattenFlags gn (gn flag) f (allFlags, visited)") auto
    obtain al1 V1 where st1: "st1 = (al1, V1)" by (cases st1)
    from "3.prems" Some r0 st1
    have "\<exists>f1. map_of al1 (gn flag) = Some f1 \<and>
        flattenValues gn rest (vals @ Values f1) (al1, V1) = Done vals' st'"
      by (cases "map_of al1 (gn flag)") auto
    then obtain f1 where f1: "map_of al1 (gn flag) = Some f1" and
      l: "flattenValues gn rest (vals @ Values f1) (al1, V1) = Done vals' st'" by blast
    from flatten_frame(1)[where gn=gn and name="gn flag" and flags=f and st="(allFlags, visited)"]
      r0 st1
    have fr: "frame allFlags visited al1 V1" by simp
    from "3.IH"(2)[OF Some r0] Some st1 obtain vs1 ns1 where
      x1: "expands gn allFlags (gn flag) vs1 ns1" and d1: "distinct ns1"
      and dis1: "set ns1 \<inter> visited = {}" and v1: "V1 = visited \<union> set ns1"
      and m1: "map_of al1 (gn flag) = Some (f\<lparr>Values := vs1\<rparr>)"
      by auto
    from "3.IH"(3)[OF Some r0 st1[symmetric] f1 l] obtain vs2 ns2 where
      x2: "expands_members gn al1 rest vs2 ns2" and d2: "distinct ns2"
      and dis2: "set ns2 \<inter> V1 = {}" and v2: "snd st' = V1 \<union> set ns2"
      and vals': "vals' = (vals @ Values f1) @ vs2"
      by auto
    from fr have k: "map fst allFlags = map fst al1" by (simp add: frame_def)
    from fr dis2 have "\<forall>n \<in> set ns2. map_of allFlags n = map_of al1 n"
      by (auto simp: frame_def)
    with expands_transfer(2)[OF x2, of allFlags] k
    have x2': "expands_members gn allFlags rest vs2 ns2" by simp
    from x1 x2' have "expands_members gn allFlags (flag # rest) (vs1 @ vs2) (ns1 @ ns2)"
      by (rule expands_expands_members.sub)
    moreover have "distinct (ns1 @ ns2)" using d1 d2 dis2 v1 by auto
    moreover have "set (ns1 @ ns2) \<inter> visited = {}" using dis1 dis2 v1 by auto
    moreover have "snd st' = visited \<union> set (ns1 @ ns2)" using v1 v2 by auto
    moreover have "vals' = vals @ vs1 @ vs2"
    proof -
      from f1 m1 have "f1 = f\<lparr>Values := vs1\<rparr>" by simp
      then have "Values f1 = vs1" by simp
      with vals' show ?thesis by simp
    qed
    ultimately show ?thesis
      by (intro exI[of _ "vs1 @ vs2"] exI[of _ "ns1 @ ns2"]) simp
  qed
qed

lemma expands_members_leaves:
  "\<forall>m \<in> set ms. map_of al (gn m) = None \<Longrightarrow> expands_members gn al ms ms []"
  by (induction ms) (auto intro: expands_expands_members.intros)




lemma cyclic_no_expansion:
  "expands Ident cyclic name vs ns \<Longrightarrow> name \<noteq> ''C'' \<and> name \<noteq> ''D''"
  "expands_members Ident cyclic ms vs ns \<Longrightarrow> \<forall>m \<in> set ms. Ident m \<noteq> ''C'' \<and> Ident m \<noteq> ''D''"
  by (induction rule: expands_expands_members.inducts)
     (auto simp: cyclic_def grp_def ref_def lit_def split: if_splits)


subsection \<open>Architecture filtering\<close>

lemma filterNodes_subset:
  "m \<in> set (fst (filterNodes meta ns c)) \<Longrightarrow> m \<in> set ns \<and> (\<exists>c'. fst (meta c' (DPos (Info m))))"
proof (induction ns arbitrary: c)
  case Nil
  then show ?case by simp
next
  case (Cons n ns)
  obtain ok c1 where m: "meta c (DPos (Info n)) = (ok, c1)" by (cases "meta c (DPos (Info n))")
  show ?case
  proof (cases ok)
    case True
    with Cons.prems m have "m = n \<or> m \<in> set (fst (filterNodes meta ns c1))"
      by (auto simp: case_prod_unfold)
    then show ?thesis
    proof
      assume "m = n"
      with m True have "fst (meta c (DPos (Info m)))" by simp
      with \<open>m = n\<close> show ?thesis by auto
    next
      assume "m \<in> set (fst (filterNodes meta ns c1))"
      from Cons.IH[OF this] show ?thesis by auto
    qed
  next
    case False
    with Cons.prems m Cons.IH show ?thesis by (auto split: if_splits)
  qed
qed

lemma filterNodes_keeps:
  assumes k: "\<forall>c pos. unsupported (snd (meta c pos)) = unsupported c"
  shows "unsupported c k = Some True \<Longrightarrow> unsupported (snd (filterNodes meta ns c)) k = Some True"
proof (induction ns arbitrary: c)
  case Nil
  then show ?case by simp
next
  case (Cons n ns)
  obtain ok c1 where m: "meta c (DPos (Info n)) = (ok, c1)" by (cases "meta c (DPos (Info n))")
  with k[rule_format, of c "DPos (Info n)"] have u: "unsupported c1 = unsupported c" by simp
  show ?case using m u Cons.prems
    by (auto simp: case_prod_unfold intro!: Cons.IH)
qed

lemma filterNodes_records:
  assumes k: "\<forall>c pos. unsupported (snd (meta c pos)) = unsupported c"
  shows "n \<in> set ns \<Longrightarrow> \<forall>c'. \<not> fst (meta c' (DPos (Info n))) \<Longrightarrow> recorded n \<Longrightarrow>
     unsupported (snd (filterNodes meta ns c)) (DTyp (Info n) @ '' '' @ DName (Info n)) = Some True"
proof (induction ns arbitrary: c)
  case Nil
  then show ?case by simp
next
  case (Cons a ns)
  obtain ok c1 where m: "meta c (DPos (Info a)) = (ok, c1)" by (cases "meta c (DPos (Info a))")
  show ?case
  proof (cases "a = n")
    case True
    with Cons.prems(2) m have "\<not> ok" by (metis fst_conv)
    with True m Cons.prems(3) show ?thesis
      by (simp add: filterNodes_keeps[OF k])
  next
    case False
    with Cons.prems have "n \<in> set ns" by simp
    from Cons.IH[OF this Cons.prems(2,3)] m show ?thesis by (simp add: case_prod_unfold)
  qed
qed

lemma filterNodes_reports:
  assumes k: "\<forall>c pos. errors (snd (meta c pos)) = errors c \<and> diags (snd (meta c pos)) = diags c"
  shows "errors (snd (filterNodes meta ns c)) = errors c \<and> diags (snd (filterNodes meta ns c)) = diags c"
proof (induction ns arbitrary: c)
  case Nil
  show ?case by simp
next
  case (Cons n ns)
  obtain ok c1 where m: "meta c (DPos (Info n)) = (ok, c1)" by (cases "meta c (DPos (Info n))")
  with k[rule_format, of c "DPos (Info n)"] have u: "errors c1 = errors c" "diags c1 = diags c" by simp_all
  show ?case using m u Cons.IH[of c1]
      Cons.IH[of "c1\<lparr>unsupported := (unsupported c1)(DTyp (Info n) @ '' '' @ DName (Info n) \<mapsto> True)\<rparr>"]
    by (simp add: case_prod_unfold)
qed

lemma callNames_iff: "x \<in> set (callNames ns) \<longleftrightarrow> (\<exists>d. Call d \<in> set ns \<and> DName d = x)"
  by (induction ns rule: callNames.induct) auto

lemma desc_flattenAll: "desc (snd (flattenAll gn order al c)) = desc c"
proof (induction order arbitrary: al c)
  case Nil
  show ?case by simp
next
  case (Cons name order)
  show ?case
  proof (cases "map_of al name")
    case None
    with Cons show ?thesis by simp
  next
    case (Some flags)
    show ?thesis
    proof (cases "recurFlattenFlags gn name flags (al, {})")
      case (Done u st)
      with Some Cons[of "fst st" c] show ?thesis by (simp add: case_prod_unfold)
    next
      case (Failed e st)
      obtain msg where "e = Errorf msg" by (cases e)
      with Failed Some Cons[of "fst st" "error (FPos flags) msg c"] show ?thesis
        by (simp add: case_prod_unfold error_def)
    next
      case Panicked
      with Some show ?thesis by simp
    qed
  qed
qed

lemma callNames_copyValues: "callNames (map (copyValues c) ns) = callNames ns"
proof (induction ns)
  case Nil
  show ?case by simp
next
  case (Cons n ns)
  then show ?case by (cases n) (auto split: option.splits)
qed

lemma callNames_flattenFlags: "callNames (desc (flattenFlags io so c)) = callNames (desc c)"
proof -
  have a: "desc (flattenIntFlags io c) = desc c"
    using desc_flattenAll[of Ident io "intFlags c" c]
    by (simp add: flattenIntFlags_def case_prod_unfold)
  have b: "desc (flattenStrFlags so (flattenIntFlags io c)) = desc (flattenIntFlags io c)"
    using desc_flattenAll[of StrValue so "strFlags (flattenIntFlags io c)" "flattenIntFlags io c"]
    by (simp add: flattenStrFlags_def case_prod_unfold)
  show ?thesis by (simp add: flattenFlags_def Let_def callNames_copyValues a b)
qed

lemma Compile_syscalls:
  fixes P :: "('x, 'fc, 's, 't, 'r) package"
  assumes t: "tracksCalls P sysName"
    and r: "Compile P io so nodes consts tgt = (Some prg, ds)"
  shows "sysName ` set (Syscalls prg)
     \<subseteq> set (callNames (desc (filterArch P (createCompiler P nodes tgt))))"
proof (cases "consts")
  case None
  with r show ?thesis
    by (auto simp: Compile_def Let_def case_prod_unfold split: if_splits)
next
  case (Some cs)
  define c1 where "c1 = filterArch P (createCompiler P nodes tgt)"
  define c3 where "c3 = flattenFlags io so (typecheck P c1)"
  define c4 where "c4 = (if SyscallNumbers (target c3) then assignSyscallNumbers P cs c3 else c3)"
  define c6 where "c6 = check P cs (patchConsts P cs c4)"
  have f: "frontStages P io so (createCompiler P nodes tgt) = c3"
    by (simp add: frontStages_def c3_def c1_def)
  have k: "constStages P cs c3 = c6" by (simp add: constStages_def c6_def c4_def)
  from r Some f k have "prg = fst (genStages P c6)"
    by (auto simp: Compile_def Let_def case_prod_unfold split: if_splits)
  then have s: "Syscalls prg = fst (genSyscalls P c6)"
    by (simp add: genStages_def case_prod_unfold)
  have "sysName ` set (fst (genSyscalls P c6)) \<subseteq> set (callNames (desc c6))"
    using t by (simp add: tracksCalls_def)
  also have "\<dots> \<subseteq> set (callNames (desc (patchConsts P cs c4)))"
    unfolding c6_def using t by (simp add: tracksCalls_def)
  also have "\<dots> \<subseteq> set (callNames (desc c4))"
    using t by (simp add: tracksCalls_def)
  also have "\<dots> \<subseteq> set (callNames (desc c3))"
    unfolding c4_def using t by (simp add: tracksCalls_def)
  also have "\<dots> = set (callNames (desc (typecheck P c1)))"
    unfolding c3_def by (simp add: callNames_flattenFlags)
  also have "\<dots> \<subseteq> set (callNames (desc c1))"
    using t by (simp add: tracksCalls_def)
  finally show ?thesis using s by (simp add: c1_def)
qed

lemmas ex_defs = exPackage_def exTypecheck_def exTarget_def exDecl_def exPos_def
  createCompiler_def filterArch_def frontStages_def constStages_def genStages_def Compile_def
  flattenFlags_def flattenIntFlags_def flattenStrFlags_def error_def
  recurFlattenFlags.simps SetValues_def usedTwiceMsg_def lit_def ref_def




subsection \<open>The barriers of \<open>Compile\<close>\<close>

lemma errors_error [simp]: "errors (error pos msg c) = Suc (errors c)"
  by (simp add: error_def)

lemma flattenAll_errors_mono:
  "errors c \<le> errors (snd (flattenAll gn order allFlags c))"
proof (induction order arbitrary: allFlags c)
  case Nil
  show ?case by simp
next
  case (Cons name order)
  show ?case
  proof (cases "map_of allFlags name")
    case None
    with Cons show ?thesis by simp
  next
    case (Some flags)
    show ?thesis
    proof (cases "recurFlattenFlags gn name flags (allFlags, {})")
      case (Done u st)
      with Some Cons[of c "fst st"] show ?thesis by (simp add: case_prod_unfold)
    next
      case (Failed e st)
      obtain msg where "e = Errorf msg" by (cases e)
      with Failed Some Cons[of "error (FPos flags) msg c" "fst st"] show ?thesis
        by (simp add: case_prod_unfold)
    next
      case Panicked
      with Some show ?thesis by simp
    qed
  qed
qed

lemma errors_flattenFlags_mono: "errors c \<le> errors (flattenFlags io so c)"
proof -
  have "errors c \<le> errors (flattenIntFlags io c)"
    using flattenAll_errors_mono[of c Ident io "intFlags c"]
    by (simp add: flattenIntFlags_def case_prod_unfold)
  also have "\<dots> \<le> errors (flattenStrFlags so (flattenIntFlags io c))"
    using flattenAll_errors_mono[of "flattenIntFlags io c" StrValue so "strFlags (flattenIntFlags io c)"]
    by (simp add: flattenStrFlags_def case_prod_unfold)
  finally show ?thesis by (simp add: flattenFlags_def Let_def)
qed

text \<open>
  Claim C1, as stated, fails: the error counter is not tested between the type checker
  and flag flattening. Here the type checker reports an error, and the diagnostics of
  \<open>Compile\<close> go on with the two errors that \<open>flattenFlags\<close> reports afterwards.
\<close>

theorem Compile_flattens_after_typecheck_error:
  "errors (typecheck (exPackage [(exPos ''a.txt'' 3, ''unknown type foo'')] [])
       (filterArch (exPackage [(exPos ''a.txt'' 3, ''unknown type foo'')] [])
          (createCompiler (exPackage [(exPos ''a.txt'' 3, ''unknown type foo'')] []) cyclicNodes exTarget)))
     = 1
   \<and> Compile (exPackage [(exPos ''a.txt'' 3, ''unknown type foo'')] []) [''C'', ''D''] []
       cyclicNodes (Some Map.empty) exTarget
     = (None,
        [(exPos ''a.txt'' 3, ''unknown type foo''),
         (exPos ''a.txt'' 1, ''flags C used twice or circular dependency on C''),
         (exPos ''a.txt'' 2, ''flags D used twice or circular dependency on D'')])"
  by (simp add: ex_defs cyclicNodes_def insert_commute)


text \<open>
  Claim C1, amended. \<open>Compile\<close> tests the error counter at four places only: after flag
  flattening, after constant extraction, after the semantic check and after generation.
  When the counter is not zero at a test, \<open>Compile\<close> returns nil and the handler has seen
  the diagnostics of the state at that test and nothing later. The stages between two
  tests all run: after an error of the architecture filter or of the type checker the
  diagnostics are still those of the state that flag flattening leaves, and the same
  holds for syscall number assignment, constant patching and the check, and for the
  generation stages. When the counter is zero at every test, \<open>Compile\<close> returns the file
  constants (for a nil constant map) or the generated specification, and then hands the
  warnings to the handler. The stages of other files are taken never to lower the counter.
\<close>

theorem Compile_barriers:
  fixes P :: "('x, 'fc, 's, 't, 'r) package"
  assumes "stages_mono P"
  shows
    "let c0 = createCompiler P nodes tgt;
         c1 = filterArch P c0;
         c2 = typecheck P c1;
         c3 = flattenFlags io so c2
     in (errors c1 \<noteq> 0 \<or> errors c2 \<noteq> 0 \<or> errors c3 \<noteq> 0 \<longrightarrow>
           Compile P io so nodes consts tgt = (None, diags c3))
      \<and> (errors c3 = 0 \<and> consts = None \<longrightarrow>
           Compile P io so nodes consts tgt =
             (if errors (snd (extractConsts P c3)) \<noteq> 0 then None
              else Some \<lparr>Resources = [], Syscalls = [], Types = [], Unsupported = Map.empty,
                          fileConsts = Some (fst (extractConsts P c3))\<rparr>,
              diags (snd (extractConsts P c3))))
      \<and> (\<forall>cs. errors c3 = 0 \<and> consts = Some cs \<longrightarrow>
           (let c4 = (if SyscallNumbers (target c3) then assignSyscallNumbers P cs c3 else c3);
                c5 = patchConsts P cs c4;
                c6 = check P cs c5;
                syscalls = fst (genSyscalls P c6);
                c7 = snd (genSyscalls P c6);
                c8 = layoutTypes P syscalls c7;
                types = fst (generateTypes P syscalls c8);
                c9 = snd (generateTypes P syscalls c8);
                c10 = snd (genResources P c9)
            in (errors c4 \<noteq> 0 \<or> errors c5 \<noteq> 0 \<or> errors c6 \<noteq> 0 \<longrightarrow>
                  Compile P io so nodes consts tgt = (None, diags c6))
             \<and> (errors c6 = 0 \<and>
                  (errors c7 \<noteq> 0 \<or> errors c8 \<noteq> 0 \<or> errors c9 \<noteq> 0 \<or> errors c10 \<noteq> 0) \<longrightarrow>
                  Compile P io so nodes consts tgt = (None, diags c10))
             \<and> (errors c10 = 0 \<longrightarrow>
                  Compile P io so nodes consts tgt =
                    (Some \<lparr>Resources = fst (genResources P c9), Syscalls = syscalls, Types = types,
                            Unsupported = unsupported c10, fileConsts = None\<rparr>,
                     diags c10 @ warnings c10))))"
proof -
  define c0 where "c0 = createCompiler P nodes tgt"
  define c1 where "c1 = filterArch P c0"
  define c2 where "c2 = typecheck P c1"
  define c3 where "c3 = flattenFlags io so c2"
  have f: "frontStages P io so c0 = c3"
    by (simp add: frontStages_def c3_def c2_def c1_def)
  have m12: "errors c1 \<le> errors c2" using assms by (simp add: stages_mono_def c2_def)
  have m23: "errors c2 \<le> errors c3" by (simp add: c3_def errors_flattenFlags_mono)
  have front: "Compile P io so nodes consts tgt = (None, diags c3)" if "errors c3 \<noteq> 0"
    using that f by (simp add: Compile_def c0_def[symmetric])
  have a: "Compile P io so nodes consts tgt = (None, diags c3)"
    if "errors c1 \<noteq> 0 \<or> errors c2 \<noteq> 0 \<or> errors c3 \<noteq> 0"
    using that m12 m23 front by auto
  have b: "Compile P io so nodes consts tgt =
             (if errors (snd (extractConsts P c3)) \<noteq> 0 then None
              else Some \<lparr>Resources = [], Syscalls = [], Types = [], Unsupported = Map.empty,
                          fileConsts = Some (fst (extractConsts P c3))\<rparr>,
              diags (snd (extractConsts P c3)))"
    if "errors c3 = 0 \<and> consts = None"
    using that f by (simp add: Compile_def c0_def[symmetric] case_prod_unfold)
  have c: "(errors c4 \<noteq> 0 \<or> errors c5 \<noteq> 0 \<or> errors c6 \<noteq> 0 \<longrightarrow>
                  Compile P io so nodes consts tgt = (None, diags c6))
             \<and> (errors c6 = 0 \<and>
                  (errors c7 \<noteq> 0 \<or> errors c8 \<noteq> 0 \<or> errors c9 \<noteq> 0 \<or> errors c10 \<noteq> 0) \<longrightarrow>
                  Compile P io so nodes consts tgt = (None, diags c10))
             \<and> (errors c10 = 0 \<longrightarrow>
                  Compile P io so nodes consts tgt =
                    (Some \<lparr>Resources = fst (genResources P c9), Syscalls = syscalls, Types = types,
                            Unsupported = unsupported c10, fileConsts = None\<rparr>,
                     diags c10 @ warnings c10))"
    if z: "errors c3 = 0 \<and> consts = Some cs"
      and d: "c4 = (if SyscallNumbers (target c3) then assignSyscallNumbers P cs c3 else c3)"
        "c5 = patchConsts P cs c4" "c6 = check P cs c5" "syscalls = fst (genSyscalls P c6)"
        "c7 = snd (genSyscalls P c6)"
        "c8 = layoutTypes P syscalls c7"
        "types = fst (generateTypes P syscalls c8)"
        "c9 = snd (generateTypes P syscalls c8)"
        "c10 = snd (genResources P c9)"
    for cs c4 c5 c6 syscalls c7 c8 types c9 c10
  proof -
    have k: "constStages P cs c3 = c6" by (simp add: constStages_def d)
    have g: "genStages P c6 =
        (\<lparr>Resources = fst (genResources P c9), Syscalls = syscalls, Types = types,
          Unsupported = unsupported c10, fileConsts = None\<rparr>, c10)"
      by (simp add: genStages_def d case_prod_unfold)
    have m: "errors c4 \<le> errors c5" "errors c5 \<le> errors c6" "errors c6 \<le> errors c7"
      "errors c7 \<le> errors c8" "errors c8 \<le> errors c9" "errors c9 \<le> errors c10"
      using assms by (simp_all add: stages_mono_def d)
    have x: "Compile P io so nodes consts tgt = (None, diags c6)" if "errors c6 \<noteq> 0"
      using that z f k by (simp add: Compile_def c0_def[symmetric] Let_def)
    have y: "Compile P io so nodes consts tgt = (None, diags c10)"
      if "errors c6 = 0" "errors c10 \<noteq> 0"
      using that z f k g by (simp add: Compile_def c0_def[symmetric] Let_def)
    have w: "Compile P io so nodes consts tgt =
                    (Some \<lparr>Resources = fst (genResources P c9), Syscalls = syscalls, Types = types,
                            Unsupported = unsupported c10, fileConsts = None\<rparr>,
                     diags c10 @ warnings c10)"
      if "errors c10 = 0"
    proof -
      from that m have "errors c6 = 0" by simp
      with that z f k g show ?thesis by (simp add: Compile_def c0_def[symmetric] Let_def)
    qed
    from x y w m show ?thesis by auto
  qed
  show ?thesis
    unfolding Let_def c0_def[symmetric] c1_def[symmetric] c2_def[symmetric] c3_def[symmetric]
  proof (intro conjI allI impI)
    assume "errors c1 \<noteq> 0 \<or> errors c2 \<noteq> 0 \<or> errors c3 \<noteq> 0"
    then show "Compile P io so nodes consts tgt = (None, diags c3)" by (rule a)
  next
    assume "errors c3 = 0 \<and> consts = None"
    then show "Compile P io so nodes consts tgt =
             (if errors (snd (extractConsts P c3)) \<noteq> 0 then None
              else Some \<lparr>Resources = [], Syscalls = [], Types = [], Unsupported = Map.empty,
                          fileConsts = Some (fst (extractConsts P c3))\<rparr>,
              diags (snd (extractConsts P c3)))" by (rule b)
  next
    fix cs
    assume z: "errors c3 = 0 \<and> consts = Some cs"
    note r = c[OF z refl refl refl refl refl refl refl refl refl]
    {
      assume e: "errors (if SyscallNumbers (target c3) then assignSyscallNumbers P cs c3 else c3) \<noteq> 0 \<or>
        errors (patchConsts P cs (if SyscallNumbers (target c3) then assignSyscallNumbers P cs c3 else c3)) \<noteq> 0 \<or>
        errors (check P cs (patchConsts P cs (if SyscallNumbers (target c3) then assignSyscallNumbers P cs c3 else c3))) \<noteq> 0"
      from r[THEN conjunct1, rule_format, OF e]
      show "Compile P io so nodes consts tgt =
        (None, diags (check P cs (patchConsts P cs (if SyscallNumbers (target c3) then assignSyscallNumbers P cs c3 else c3))))" .
    next
      let ?c6 = "check P cs (patchConsts P cs (if SyscallNumbers (target c3) then assignSyscallNumbers P cs c3 else c3))"
      let ?c7 = "snd (genSyscalls P ?c6)"
      let ?c8 = "layoutTypes P (fst (genSyscalls P ?c6)) ?c7"
      let ?c9 = "snd (generateTypes P (fst (genSyscalls P ?c6)) ?c8)"
      let ?c10 = "snd (genResources P ?c9)"
      assume e: "errors ?c6 = 0 \<and> (errors ?c7 \<noteq> 0 \<or> errors ?c8 \<noteq> 0 \<or> errors ?c9 \<noteq> 0 \<or> errors ?c10 \<noteq> 0)"
      from r[THEN conjunct2, THEN conjunct1, rule_format, OF e]
      show "Compile P io so nodes consts tgt = (None, diags ?c10)" .
    next
      let ?c6 = "check P cs (patchConsts P cs (if SyscallNumbers (target c3) then assignSyscallNumbers P cs c3 else c3))"
      let ?c7 = "snd (genSyscalls P ?c6)"
      let ?c8 = "layoutTypes P (fst (genSyscalls P ?c6)) ?c7"
      let ?c9 = "snd (generateTypes P (fst (genSyscalls P ?c6)) ?c8)"
      let ?c10 = "snd (genResources P ?c9)"
      assume e: "errors ?c10 = 0"
      from r[THEN conjunct2, THEN conjunct2, rule_format, OF e]
      show "Compile P io so nodes consts tgt =
          (Some \<lparr>Resources = fst (genResources P ?c9), Syscalls = fst (genSyscalls P ?c6),
                  Types = fst (generateTypes P (fst (genSyscalls P ?c6)) ?c8),
                  Unsupported = unsupported ?c10, fileConsts = None\<rparr>,
           diags ?c10 @ warnings ?c10)" .
    }
  qed
qed

lemma errors_foldl_error:
  "errors c \<le> errors (foldl (\<lambda>c' (pos, msg). error pos msg c') c found)"
proof (induction found arbitrary: c)
  case Nil
  show ?case by simp
next
  case (Cons d found)
  obtain pos msg where d: "d = (pos, msg)" by (cases d)
  have "errors c \<le> errors (error pos msg c)" by simp
  also have "\<dots> \<le> errors (foldl (\<lambda>c' (pos, msg). error pos msg c') (error pos msg c) found)"
    by (rule Cons)
  finally show ?case by (simp add: d)
qed

lemma errors_exTypecheck: "errors c \<le> errors (exTypecheck found c)"
  using errors_foldl_error[of "c\<lparr>intFlags := flagTable (desc c)\<rparr>" found]
  by (simp add: exTypecheck_def)

lemma stages_mono_exPackage: "stages_mono (exPackage found otherArch)"
  by (simp add: stages_mono_def exPackage_def errors_exTypecheck)


theorem Compile_barriers_witness:
  "stages_mono (exPackage [(exPos ''a.txt'' 3, ''unknown type foo'')] [])
   \<and> errors (typecheck (exPackage [(exPos ''a.txt'' 3, ''unknown type foo'')] [])
       (filterArch (exPackage [(exPos ''a.txt'' 3, ''unknown type foo'')] [])
          (createCompiler (exPackage [(exPos ''a.txt'' 3, ''unknown type foo'')] []) cyclicNodes exTarget)))
      \<noteq> 0
   \<and> Compile (exPackage [(exPos ''a.txt'' 3, ''unknown type foo'')] []) [''C'', ''D''] [] cyclicNodes
       (Some Map.empty) exTarget
     = (None,
        diags (flattenFlags [''C'', ''D''] []
          (typecheck (exPackage [(exPos ''a.txt'' 3, ''unknown type foo'')] [])
            (filterArch (exPackage [(exPos ''a.txt'' 3, ''unknown type foo'')] [])
              (createCompiler (exPackage [(exPos ''a.txt'' 3, ''unknown type foo'')] []) cyclicNodes exTarget)))))
   \<and> stages_mono (exPackage [] [''a.txt''])
   \<and> Compile (exPackage [] [''a.txt'']) [] [] twoCalls (Some Map.empty) exTarget
     = (Some \<lparr>Resources = [], Syscalls = [''bar''], Types = [],
               Unsupported = [''syscall foo'' \<mapsto> True], fileConsts = None\<rparr>, [])"
proof -
  let ?P = "exPackage [(exPos ''a.txt'' 3, ''unknown type foo'')] []"
  let ?Q = "exPackage [] [''a.txt'']"
  have m: "stages_mono ?P" and mq: "stages_mono ?Q" by (rule stages_mono_exPackage)+
  have e: "errors (typecheck ?P (filterArch ?P (createCompiler ?P cyclicNodes exTarget))) \<noteq> 0"
    by (simp add: exPackage_def exTypecheck_def filterArch_def createCompiler_def cyclicNodes_def
        case_prod_unfold)
  from Compile_barriers[OF m, of cyclicNodes exTarget "[''C'', ''D'']" "[]" "Some Map.empty"] e
  have a: "Compile ?P [''C'', ''D''] [] cyclicNodes (Some Map.empty) exTarget
     = (None, diags (flattenFlags [''C'', ''D''] []
          (typecheck ?P (filterArch ?P (createCompiler ?P cyclicNodes exTarget)))))"
    unfolding Let_def by blast
  let ?c3 = "flattenFlags [] [] (typecheck ?Q (filterArch ?Q (createCompiler ?Q twoCalls exTarget)))"
  let ?c4 = "if SyscallNumbers (target ?c3) then assignSyscallNumbers ?Q Map.empty ?c3 else ?c3"
  let ?c6 = "check ?Q Map.empty (patchConsts ?Q Map.empty ?c4)"
  let ?c7 = "snd (genSyscalls ?Q ?c6)"
  let ?c8 = "layoutTypes ?Q (fst (genSyscalls ?Q ?c6)) ?c7"
  let ?c9 = "snd (generateTypes ?Q (fst (genSyscalls ?Q ?c6)) ?c8)"
  let ?c10 = "snd (genResources ?Q ?c9)"
  have z: "errors ?c3 = 0 \<and> Some (Map.empty :: string \<rightharpoonup> nat) = Some Map.empty"
    by (simp add: ex_defs twoCalls_def)
  have e10: "errors ?c10 = 0"
    by (simp add: ex_defs twoCalls_def)
  have "Compile ?Q [] [] twoCalls (Some Map.empty) exTarget
     = (Some \<lparr>Resources = fst (genResources ?Q ?c9), Syscalls = fst (genSyscalls ?Q ?c6),
               Types = fst (generateTypes ?Q (fst (genSyscalls ?Q ?c6)) ?c8),
               Unsupported = unsupported ?c10, fileConsts = None\<rparr>,
        diags ?c10 @ warnings ?c10)"
    using Compile_barriers[OF mq, of twoCalls exTarget "[]" "[]" "Some Map.empty", unfolded Let_def,
      THEN conjunct2, THEN conjunct2, rule_format, OF z] e10 by blast
  also have "\<dots> = (Some \<lparr>Resources = [], Syscalls = [''bar''], Types = [],
               Unsupported = [''syscall foo'' \<mapsto> True], fileConsts = None\<rparr>, [])"
    by (simp add: ex_defs twoCalls_def)
  finally have b: "Compile ?Q [] [] twoCalls (Some Map.empty) exTarget
     = (Some \<lparr>Resources = [], Syscalls = [''bar''], Types = [],
               Unsupported = [''syscall foo'' \<mapsto> True], fileConsts = None\<rparr>, [])" .
  from m e a mq b show ?thesis by blast
qed

subsection \<open>The order of map iteration\<close>

text \<open>
  Claim C8. The result of \<open>Compile\<close> depends on the order in which \<open>flattenIntFlags\<close>
  ranges over \<open>comp.intFlags\<close>, which Go does not fix. For \<open>A = B, C\<close>; \<open>B = C\<close>;
  \<open>C = 1\<close>: when \<open>A\<close> is visited first, \<open>C\<close> is met twice below \<open>A\<close> and \<open>Compile\<close>
  returns nil; when \<open>B\<close> is visited before \<open>A\<close>, \<open>B\<close> no longer refers to \<open>C\<close> when \<open>A\<close> is
  flattened, there is no error and \<open>Compile\<close> returns a specification.
\<close>

theorem Compile_depends_on_map_order:
  "Compile (exPackage [] []) [''A'', ''B'', ''C''] [] diamondNodes (Some Map.empty) exTarget
     = (None, [(exPos ''a.txt'' 1, ''flags C used twice or circular dependency on C'')])
   \<and> Compile (exPackage [] []) [''C'', ''B'', ''A''] [] diamondNodes (Some Map.empty) exTarget
     = (Some \<lparr>Resources = [], Syscalls = [], Types = [], Unsupported = Map.empty, fileConsts = None\<rparr>, [])"
  by (simp add: ex_defs diamondNodes_def insert_commute)

subsection \<open>Attribute parsing\<close>

lemmas attr_defs = parseAttrs_def parseAttr_def parseAttrIntArg_def parseAttrExprArg_def
  parseAttrStringArg_def noAttrs_def exChecker_def exCheckTypeKind_def exStructAttrs_def
  attrPacked_def attrAlign_def ident_def intLit_def strLit_def exStruct_def exDecl_def exPos_def
  exComp_def createCompiler_def exPackage_def exTarget_def error_def

lemma parseAttrsLoop_append:
  "parseAttrsLoop K descs pt pn (pre @ rest) res c =
     (case parseAttrsLoop K descs pt pn pre res c of
        Next res1 c1 \<Rightarrow> parseAttrsLoop K descs pt pn rest res1 c1
      | Return r c1 \<Rightarrow> Return r c1)"
  by (induction pre arbitrary: res c) (auto split: step.splits)

lemma parseAttr_Next:
  assumes "parseAttr K descs pt pn attr res c = Next res' c'"
  shows "\<exists>d. descs (TIdent attr) = Some d \<and> \<not> recordedIn res d \<and> recordedIn res' d \<and>
           (\<forall>d'. recordedIn res d' \<longrightarrow> recordedIn res' d')"
  using assms
  by (auto simp: parseAttr_def recordedIn_def case_prod_unfold
      split: if_splits list.splits option.splits attrDescType.splits)

lemma parseAttrsLoop_recorded:
  "parseAttrsLoop K descs pt pn pre res c = Next res1 c1 \<Longrightarrow>
     (\<forall>d. recordedIn res d \<longrightarrow> recordedIn res1 d) \<and>
     (\<forall>a \<in> set pre. \<exists>d. descs (TIdent a) = Some d \<and> recordedIn res1 d)"
proof (induction pre arbitrary: res c)
  case Nil
  then show ?case by simp
next
  case (Cons a pre)
  from Cons.prems obtain res2 c2 where
    s: "parseAttr K descs pt pn a res c = Next res2 c2"
    and l: "parseAttrsLoop K descs pt pn pre res2 c2 = Next res1 c1"
    by (auto split: step.splits)
  from parseAttr_Next[OF s] obtain d where
    d: "descs (TIdent a) = Some d" "recordedIn res2 d" "\<forall>d'. recordedIn res d' \<longrightarrow> recordedIn res2 d'"
    by blast
  from Cons.IH[OF l] d show ?case by auto
qed

lemma parseAttr_duplicate:
  assumes "snd (checkTypeKind K attr kindIdent)" and "TColon attr = []"
    and "descs (TIdent attr) = Some d" and "recordedIn res d"
  shows "parseAttr K descs pt pn attr res c =
     Return (Some res)
       (error (TPos attr) (''duplicate '' @ pt @ '' '' @ pn @ '' attribute '' @ TIdent attr) c)"
  using assms by (auto simp: parseAttr_def recordedIn_def case_prod_unfold)

text \<open>
  Claim C7, as stated, fails for a wrong argument count or type of an integer attribute:
  \<open>align\<close> without an argument is reported at the attribute, zero is recorded for it and
  parsing goes on to the next attribute, which is reported too; and a string argument of
  \<open>align\<close> is reported at the position of the argument (line 7), not of the attribute
  (line 2).
\<close>

theorem parseAttrs_goes_on_after_malformed:
  "parseAttrs exChecker exStructAttrs exStruct [ident 2 ''align'' [], ident 3 ''bogus'' []] exComp
     = (Some \<lparr>resInt = [attrAlign \<mapsto> 0], resExpr = Map.empty, resString = Map.empty\<rparr>,
        exComp\<lparr>errors := 2,
          diags := [(exPos ''a.txt'' 2, ''align attribute is expected to have 1 argument''),
                    (exPos ''a.txt'' 3, ''unknown struct S attribute bogus'')]\<rparr>)
   \<and> parseAttrs exChecker exStructAttrs exStruct [ident 2 ''align'' [strLit 7 ''x'']] exComp
     = (Some \<lparr>resInt = [attrAlign \<mapsto> 0], resExpr = Map.empty, resString = Map.empty\<rparr>,
        exComp\<lparr>errors := 1,
          diags := [(exPos ''a.txt'' 7, ''unexpected string x, expect int'')]\<rparr>)"
  by (simp add: attr_defs)

lemma parseAttrs_returns:
  assumes "parseAttrsLoop K descs (DTyp parent) (DName parent) pre noAttrs c = Next res1 c1"
    and "parseAttr K descs (DTyp parent) (DName parent) attr res1 c1 = Return r c2"
  shows "parseAttrs K descs parent (pre @ attr # post) c = (r, c2)"
  using assms by (simp add: parseAttrs_def parseAttrsLoop_append)

lemma parseAttrs_goes_on:
  assumes "parseAttrsLoop K descs pt pn pre noAttrs c = Next res1 c1"
    and "parseAttr K descs pt pn attr res1 c1 = Next res2 c2"
  shows "parseAttrsLoop K descs pt pn (pre @ [attr]) noAttrs c = Next res2 c2"
  using assms by (simp add: parseAttrsLoop_append)

text \<open>
  Claim C7, amended. Let the attributes \<open>pre\<close> of a node have been parsed without a
  return, with the maps \<open>res1\<close>. The next attribute ends \<open>parseAttrs\<close>, whatever follows
  it, with exactly one more error, in six cases: it is not an identifier, it has a colon
  part (the error is at the first colon part), its name is unknown, its key is already
  recorded in one of the three maps (by an attribute of \<open>pre\<close>), it is a flag attribute
  with arguments, or its descriptor has none of the four known types. In the first four
  cases the result is the maps as they were, so a duplicate does not override the value
  of the first; in the last two the result is three \<open>nil\<close>s. Every error but the colon
  error is at the position of the attribute. An integer, expression or string attribute
  with a new key never ends the parsing: a wrong number or type of arguments adds one
  error, records zero, \<open>nil\<close> or the empty string under the key, and the loop goes on to
  the next attribute. The error for an integer argument of the wrong kind, or with a
  colon part or arguments, is at the position of the argument; the others are at the
  attribute.
\<close>

theorem parseAttrs_first_return:
  fixes K :: "'e checker" and c :: "'x compiler"
  assumes "parseAttrsLoop K descs (DTyp parent) (DName parent) pre noAttrs c = Next res1 c1"
  shows
    "(\<not> snd (checkTypeKind K attr kindIdent) \<longrightarrow>
        parseAttrs K descs parent (pre @ attr # post) c =
          (Some res1, error (TPos attr)
             (''unexpected '' @ fst (checkTypeKind K attr kindIdent) @ '', expect attribute'') c1))
   \<and> (snd (checkTypeKind K attr kindIdent) \<longrightarrow> TColon attr = col # cols \<longrightarrow>
        parseAttrs K descs parent (pre @ attr # post) c =
          (Some res1, error (TPos col) (''unexpected '' @ [CHR 0x27, CHR '':'', CHR 0x27]) c1))
   \<and> (snd (checkTypeKind K attr kindIdent) \<longrightarrow> TColon attr = [] \<longrightarrow> descs (TIdent attr) = None \<longrightarrow>
        parseAttrs K descs parent (pre @ attr # post) c =
          (Some res1, error (TPos attr)
             (''unknown '' @ DTyp parent @ '' '' @ DName parent @ '' attribute '' @ TIdent attr) c1))
   \<and> (snd (checkTypeKind K attr kindIdent) \<longrightarrow> TColon attr = [] \<longrightarrow> descs (TIdent attr) = Some d \<longrightarrow>
        recordedIn res1 d \<or> (\<exists>a \<in> set pre. descs (TIdent a) = Some d) \<longrightarrow>
        parseAttrs K descs parent (pre @ attr # post) c =
          (Some res1, error (TPos attr)
             (''duplicate '' @ DTyp parent @ '' '' @ DName parent @ '' attribute '' @ TIdent attr) c1))
   \<and> (snd (checkTypeKind K attr kindIdent) \<longrightarrow> TColon attr = [] \<longrightarrow> descs (TIdent attr) = Some d \<longrightarrow>
        \<not> recordedIn res1 d \<longrightarrow>
        (AttrType d = flagAttr \<longrightarrow> TArgs attr \<noteq> [] \<longrightarrow>
           parseAttrs K descs parent (pre @ attr # post) c =
             (None, error (TPos attr) (TIdent attr @ '' attribute has args'') c1))
      \<and> (AttrType d = otherAttr \<longrightarrow>
           parseAttrs K descs parent (pre @ attr # post) c =
             (None, error (TPos attr) (''attribute '' @ TIdent attr @ '' has unknown type'') c1))
      \<and> (AttrType d = flagAttr \<longrightarrow> TArgs attr = [] \<longrightarrow>
           parseAttrsLoop K descs (DTyp parent) (DName parent) (pre @ [attr]) noAttrs c =
             Next (res1\<lparr>resInt := (resInt res1)(d \<mapsto> 1)\<rparr>) c1)
      \<and> (AttrType d = intAttr \<longrightarrow>
           (length (TArgs attr) \<noteq> 1 \<longrightarrow>
              parseAttrsLoop K descs (DTyp parent) (DName parent) (pre @ [attr]) noAttrs c =
                Next (res1\<lparr>resInt := (resInt res1)(d \<mapsto> 0)\<rparr>)
                  (error (TPos attr) (TIdent attr @ '' attribute is expected to have 1 argument'') c1))
         \<and> (TArgs attr = [sz] \<longrightarrow> \<not> snd (checkTypeKind K sz kindInt) \<longrightarrow>
              parseAttrsLoop K descs (DTyp parent) (DName parent) (pre @ [attr]) noAttrs c =
                Next (res1\<lparr>resInt := (resInt res1)(d \<mapsto> 0)\<rparr>)
                  (error (TPos sz)
                     (''unexpected '' @ fst (checkTypeKind K sz kindInt) @ '', expect int'') c1))
         \<and> (TArgs attr = [sz] \<longrightarrow> snd (checkTypeKind K sz kindInt) \<longrightarrow>
              TColon sz \<noteq> [] \<or> TArgs sz \<noteq> [] \<longrightarrow>
              parseAttrsLoop K descs (DTyp parent) (DName parent) (pre @ [attr]) noAttrs c =
                Next (res1\<lparr>resInt := (resInt res1)(d \<mapsto> 0)\<rparr>)
                  (error (TPos sz) (TIdent attr @ '' attribute has colon or args'') c1))
         \<and> (TArgs attr = [sz] \<longrightarrow> snd (checkTypeKind K sz kindInt) \<longrightarrow>
              TColon sz = [] \<longrightarrow> TArgs sz = [] \<longrightarrow>
              parseAttrsLoop K descs (DTyp parent) (DName parent) (pre @ [attr]) noAttrs c =
                Next (res1\<lparr>resInt := (resInt res1)(d \<mapsto> TValue sz)\<rparr>) c1))
      \<and> (AttrType d = stringAttr \<longrightarrow>
           (length (TArgs attr) \<noteq> 1 \<longrightarrow>
              parseAttrsLoop K descs (DTyp parent) (DName parent) (pre @ [attr]) noAttrs c =
                Next (res1\<lparr>resString := (resString res1)(d \<mapsto> [])\<rparr>)
                  (error (TPos attr) (TIdent attr @ '' attribute is expected to have 1 argument'') c1))
         \<and> (TArgs attr = [arg] \<longrightarrow> \<not> THasString arg \<longrightarrow>
              parseAttrsLoop K descs (DTyp parent) (DName parent) (pre @ [attr]) noAttrs c =
                Next (res1\<lparr>resString := (resString res1)(d \<mapsto> [])\<rparr>)
                  (error (TPos attr) (TIdent attr @ '' argument must be a string'') c1))
         \<and> (TArgs attr = [arg] \<longrightarrow> THasString arg \<longrightarrow>
              parseAttrsLoop K descs (DTyp parent) (DName parent) (pre @ [attr]) noAttrs c =
                Next (res1\<lparr>resString := (resString res1)(d \<mapsto> TString arg)\<rparr>) c1))
      \<and> (AttrType d = exprAttr \<longrightarrow>
           (length (TArgs attr) \<noteq> 1 \<longrightarrow>
              parseAttrsLoop K descs (DTyp parent) (DName parent) (pre @ [attr]) noAttrs c =
                Next (res1\<lparr>resExpr := (resExpr res1)(d \<mapsto> None)\<rparr>)
                  (error (TPos attr)
                     (TIdent attr @ '' attribute is expected to have only one argument'') c1))
         \<and> (TArgs attr = [arg] \<longrightarrow> THasString arg \<longrightarrow>
              parseAttrsLoop K descs (DTyp parent) (DName parent) (pre @ [attr]) noAttrs c =
                Next (res1\<lparr>resExpr := (resExpr res1)(d \<mapsto> None)\<rparr>)
                  (error (TPos attr) (TIdent attr @ '' argument must be an expression'') c1))
         \<and> (TArgs attr = [arg] \<longrightarrow> \<not> THasString arg \<longrightarrow>
              (\<exists>c2. parseAttrsLoop K descs (DTyp parent) (DName parent) (pre @ [attr]) noAttrs c =
                 Next (res1\<lparr>resExpr := (resExpr res1)(d \<mapsto> Some (genExpression K arg))\<rparr>) c2))))"
proof -
  note l = assms
  note ret = parseAttrs_returns[OF l, where post = post]
  note nxt = parseAttrs_goes_on[OF l]
  have dup: "recordedIn res1 d"
    if "descs (TIdent attr) = Some d" "recordedIn res1 d \<or> (\<exists>a \<in> set pre. descs (TIdent a) = Some d)"
    for d
    using that parseAttrsLoop_recorded[OF l] by auto
  have one: "length xs \<noteq> 1 \<Longrightarrow> (case xs of [x] \<Rightarrow> f x | _ \<Rightarrow> g) = g" for xs :: "Type list" and f :: "Type \<Rightarrow> 'z" and g
    by (cases xs; cases "tl xs") auto
  show ?thesis
  proof (intro conjI impI)
    assume "\<not> snd (checkTypeKind K attr kindIdent)"
    then show "parseAttrs K descs parent (pre @ attr # post) c =
          (Some res1, error (TPos attr)
             (''unexpected '' @ fst (checkTypeKind K attr kindIdent) @ '', expect attribute'') c1)"
      by (intro ret) (simp add: parseAttr_def case_prod_unfold)
  next
    assume "snd (checkTypeKind K attr kindIdent)" "TColon attr = col # cols"
    then show "parseAttrs K descs parent (pre @ attr # post) c =
          (Some res1, error (TPos col) (''unexpected '' @ [CHR 0x27, CHR '':'', CHR 0x27]) c1)"
      by (intro ret) (simp add: parseAttr_def case_prod_unfold)
  next
    assume "snd (checkTypeKind K attr kindIdent)" "TColon attr = []" "descs (TIdent attr) = None"
    then show "parseAttrs K descs parent (pre @ attr # post) c =
          (Some res1, error (TPos attr)
             (''unknown '' @ DTyp parent @ '' '' @ DName parent @ '' attribute '' @ TIdent attr) c1)"
      by (intro ret) (simp add: parseAttr_def case_prod_unfold)
  next
    assume k: "snd (checkTypeKind K attr kindIdent)" "TColon attr = []" "descs (TIdent attr) = Some d"
      and "recordedIn res1 d \<or> (\<exists>a \<in> set pre. descs (TIdent a) = Some d)"
    with dup have "recordedIn res1 d" by blast
    with k show "parseAttrs K descs parent (pre @ attr # post) c =
          (Some res1, error (TPos attr)
             (''duplicate '' @ DTyp parent @ '' '' @ DName parent @ '' attribute '' @ TIdent attr) c1)"
      by (intro ret parseAttr_duplicate)
  next
    assume "snd (checkTypeKind K attr kindIdent)" "TColon attr = []" "descs (TIdent attr) = Some d"
      "\<not> recordedIn res1 d" "AttrType d = flagAttr" "TArgs attr \<noteq> []"
    then show "parseAttrs K descs parent (pre @ attr # post) c =
             (None, error (TPos attr) (TIdent attr @ '' attribute has args'') c1)"
      by (intro ret) (simp add: parseAttr_def case_prod_unfold recordedIn_def)
  next
    assume "snd (checkTypeKind K attr kindIdent)" "TColon attr = []" "descs (TIdent attr) = Some d"
      "\<not> recordedIn res1 d" "AttrType d = otherAttr"
    then show "parseAttrs K descs parent (pre @ attr # post) c =
             (None, error (TPos attr) (''attribute '' @ TIdent attr @ '' has unknown type'') c1)"
      by (intro ret) (simp add: parseAttr_def case_prod_unfold recordedIn_def)
  next
    assume "snd (checkTypeKind K attr kindIdent)" "TColon attr = []" "descs (TIdent attr) = Some d"
      "\<not> recordedIn res1 d" "AttrType d = flagAttr" "TArgs attr = []"
    then show "parseAttrsLoop K descs (DTyp parent) (DName parent) (pre @ [attr]) noAttrs c =
             Next (res1\<lparr>resInt := (resInt res1)(d \<mapsto> 1)\<rparr>) c1"
      by (intro nxt) (simp add: parseAttr_def case_prod_unfold recordedIn_def)
  next
    assume "snd (checkTypeKind K attr kindIdent)" "TColon attr = []" "descs (TIdent attr) = Some d"
      "\<not> recordedIn res1 d" "AttrType d = intAttr" "length (TArgs attr) \<noteq> 1"
    then show "parseAttrsLoop K descs (DTyp parent) (DName parent) (pre @ [attr]) noAttrs c =
                Next (res1\<lparr>resInt := (resInt res1)(d \<mapsto> 0)\<rparr>)
                  (error (TPos attr) (TIdent attr @ '' attribute is expected to have 1 argument'') c1)"
      by (intro nxt) (simp add: parseAttr_def case_prod_unfold recordedIn_def parseAttrIntArg_def one)
  next
    assume "snd (checkTypeKind K attr kindIdent)" "TColon attr = []" "descs (TIdent attr) = Some d"
      "\<not> recordedIn res1 d" "AttrType d = intAttr" "TArgs attr = [sz]"
      "\<not> snd (checkTypeKind K sz kindInt)"
    then show "parseAttrsLoop K descs (DTyp parent) (DName parent) (pre @ [attr]) noAttrs c =
                Next (res1\<lparr>resInt := (resInt res1)(d \<mapsto> 0)\<rparr>)
                  (error (TPos sz)
                     (''unexpected '' @ fst (checkTypeKind K sz kindInt) @ '', expect int'') c1)"
      by (intro nxt) (simp add: parseAttr_def case_prod_unfold recordedIn_def parseAttrIntArg_def)
  next
    assume "snd (checkTypeKind K attr kindIdent)" "TColon attr = []" "descs (TIdent attr) = Some d"
      "\<not> recordedIn res1 d" "AttrType d = intAttr" "TArgs attr = [sz]"
      "snd (checkTypeKind K sz kindInt)" "TColon sz \<noteq> [] \<or> TArgs sz \<noteq> []"
    then show "parseAttrsLoop K descs (DTyp parent) (DName parent) (pre @ [attr]) noAttrs c =
                Next (res1\<lparr>resInt := (resInt res1)(d \<mapsto> 0)\<rparr>)
                  (error (TPos sz) (TIdent attr @ '' attribute has colon or args'') c1)"
      by (intro nxt) (auto simp: parseAttr_def case_prod_unfold recordedIn_def parseAttrIntArg_def)
  next
    assume "snd (checkTypeKind K attr kindIdent)" "TColon attr = []" "descs (TIdent attr) = Some d"
      "\<not> recordedIn res1 d" "AttrType d = intAttr" "TArgs attr = [sz]"
      "snd (checkTypeKind K sz kindInt)" "TColon sz = []" "TArgs sz = []"
    then show "parseAttrsLoop K descs (DTyp parent) (DName parent) (pre @ [attr]) noAttrs c =
                Next (res1\<lparr>resInt := (resInt res1)(d \<mapsto> TValue sz)\<rparr>) c1"
      by (intro nxt) (simp add: parseAttr_def case_prod_unfold recordedIn_def parseAttrIntArg_def)
  next
    assume "snd (checkTypeKind K attr kindIdent)" "TColon attr = []" "descs (TIdent attr) = Some d"
      "\<not> recordedIn res1 d" "AttrType d = stringAttr" "length (TArgs attr) \<noteq> 1"
    then show "parseAttrsLoop K descs (DTyp parent) (DName parent) (pre @ [attr]) noAttrs c =
                Next (res1\<lparr>resString := (resString res1)(d \<mapsto> [])\<rparr>)
                  (error (TPos attr) (TIdent attr @ '' attribute is expected to have 1 argument'') c1)"
      by (intro nxt) (simp add: parseAttr_def case_prod_unfold recordedIn_def parseAttrStringArg_def one)
  next
    assume "snd (checkTypeKind K attr kindIdent)" "TColon attr = []" "descs (TIdent attr) = Some d"
      "\<not> recordedIn res1 d" "AttrType d = stringAttr" "TArgs attr = [arg]" "\<not> THasString arg"
    then show "parseAttrsLoop K descs (DTyp parent) (DName parent) (pre @ [attr]) noAttrs c =
                Next (res1\<lparr>resString := (resString res1)(d \<mapsto> [])\<rparr>)
                  (error (TPos attr) (TIdent attr @ '' argument must be a string'') c1)"
      by (intro nxt) (simp add: parseAttr_def case_prod_unfold recordedIn_def parseAttrStringArg_def)
  next
    assume "snd (checkTypeKind K attr kindIdent)" "TColon attr = []" "descs (TIdent attr) = Some d"
      "\<not> recordedIn res1 d" "AttrType d = stringAttr" "TArgs attr = [arg]" "THasString arg"
    then show "parseAttrsLoop K descs (DTyp parent) (DName parent) (pre @ [attr]) noAttrs c =
                Next (res1\<lparr>resString := (resString res1)(d \<mapsto> TString arg)\<rparr>) c1"
      by (intro nxt) (simp add: parseAttr_def case_prod_unfold recordedIn_def parseAttrStringArg_def)
  next
    assume "snd (checkTypeKind K attr kindIdent)" "TColon attr = []" "descs (TIdent attr) = Some d"
      "\<not> recordedIn res1 d" "AttrType d = exprAttr" "length (TArgs attr) \<noteq> 1"
    then show "parseAttrsLoop K descs (DTyp parent) (DName parent) (pre @ [attr]) noAttrs c =
                Next (res1\<lparr>resExpr := (resExpr res1)(d \<mapsto> None)\<rparr>)
                  (error (TPos attr)
                     (TIdent attr @ '' attribute is expected to have only one argument'') c1)"
      by (intro nxt) (simp add: parseAttr_def case_prod_unfold recordedIn_def parseAttrExprArg_def one)
  next
    assume "snd (checkTypeKind K attr kindIdent)" "TColon attr = []" "descs (TIdent attr) = Some d"
      "\<not> recordedIn res1 d" "AttrType d = exprAttr" "TArgs attr = [arg]" "THasString arg"
    then show "parseAttrsLoop K descs (DTyp parent) (DName parent) (pre @ [attr]) noAttrs c =
                Next (res1\<lparr>resExpr := (resExpr res1)(d \<mapsto> None)\<rparr>)
                  (error (TPos attr) (TIdent attr @ '' argument must be an expression'') c1)"
      by (intro nxt) (simp add: parseAttr_def case_prod_unfold recordedIn_def parseAttrExprArg_def)
  next
    assume "snd (checkTypeKind K attr kindIdent)" "TColon attr = []" "descs (TIdent attr) = Some d"
      "\<not> recordedIn res1 d" "AttrType d = exprAttr" "TArgs attr = [arg]" "\<not> THasString arg"
    then have "parseAttr K descs (DTyp parent) (DName parent) attr res1 c1 =
        Next (res1\<lparr>resExpr := (resExpr res1)(d \<mapsto> Some (genExpression K arg))\<rparr>) c1"
      by (simp add: parseAttr_def case_prod_unfold recordedIn_def parseAttrExprArg_def)
    from nxt[OF this]
    show "\<exists>c2. parseAttrsLoop K descs (DTyp parent) (DName parent) (pre @ [attr]) noAttrs c =
                 Next (res1\<lparr>resExpr := (resExpr res1)(d \<mapsto> Some (genExpression K arg))\<rparr>) c2"
      by blast
  qed
qed


theorem parseAttrs_first_return_witness:
  "parseAttrsLoop exChecker exStructAttrs (DTyp exStruct) (DName exStruct)
       [ident 2 ''align'' [intLit 2 4]] noAttrs exComp
     = Next \<lparr>resInt = [attrAlign \<mapsto> 4], resExpr = Map.empty, resString = Map.empty\<rparr> exComp
   \<and> parseAttrs exChecker exStructAttrs exStruct
       ([ident 2 ''align'' [intLit 2 4]] @ ident 3 ''align'' [intLit 3 8] # [ident 4 ''packed'' []]) exComp
     = (Some \<lparr>resInt = [attrAlign \<mapsto> 4], resExpr = Map.empty, resString = Map.empty\<rparr>,
        error (exPos ''a.txt'' 3) ''duplicate struct S attribute align'' exComp)
   \<and> parseAttrs exChecker exStructAttrs exStruct
       ([] @ ident 5 ''bogus'' [] # [ident 6 ''packed'' []]) exComp
     = (Some noAttrs, error (exPos ''a.txt'' 5) ''unknown struct S attribute bogus'' exComp)
   \<and> parseAttrs exChecker exStructAttrs exStruct
       ([] @ ident 5 ''packed'' [intLit 5 1] # [ident 6 ''align'' [intLit 6 4]]) exComp
     = (None, error (exPos ''a.txt'' 5) ''packed attribute has args'' exComp)
   \<and> parseAttrs exChecker exStructAttrs exStruct
       ([] @ Type (exPos ''a.txt'' 5) 0 ''packed'' False [] [intLit 8 1] [] # [ident 6 ''align'' [intLit 6 4]])
       exComp
     = (Some noAttrs, error (exPos ''a.txt'' 8) (''unexpected '' @ [CHR 0x27, CHR '':'', CHR 0x27]) exComp)
   \<and> parseAttrsLoop exChecker exStructAttrs (DTyp exStruct) (DName exStruct)
       ([] @ [ident 2 ''align'' []]) noAttrs exComp
     = Next ((noAttrs :: unit attrMaps)\<lparr>resInt := (resInt (noAttrs :: unit attrMaps))(attrAlign \<mapsto> 0)\<rparr>)
         (error (exPos ''a.txt'' 2) ''align attribute is expected to have 1 argument'' exComp)
   \<and> parseAttrsLoop exChecker exStructAttrs (DTyp exStruct) (DName exStruct)
       ([] @ [ident 2 ''align'' [strLit 7 ''x'']]) noAttrs exComp
     = Next ((noAttrs :: unit attrMaps)\<lparr>resInt := (resInt (noAttrs :: unit attrMaps))(attrAlign \<mapsto> 0)\<rparr>)
         (error (exPos ''a.txt'' 7) ''unexpected string x, expect int'' exComp)"
proof -
  let ?pre = "[ident 2 ''align'' [intLit 2 4]]"
  let ?res1 = "\<lparr>resInt = [attrAlign \<mapsto> 4], resExpr = Map.empty, resString = (Map.empty :: attrDesc \<rightharpoonup> string)\<rparr>
      :: unit attrMaps"
  let ?col = "Type (exPos ''a.txt'' 5) 0 ''packed'' False [] [intLit 8 1] []"
  have l: "parseAttrsLoop exChecker exStructAttrs (DTyp exStruct) (DName exStruct) ?pre noAttrs exComp
      = Next ?res1 exComp"
    by (simp add: attr_defs)
  have l0: "parseAttrsLoop exChecker exStructAttrs (DTyp exStruct) (DName exStruct) [] noAttrs exComp
      = Next (noAttrs :: unit attrMaps) exComp"
    by simp
  have k: "snd (checkTypeKind exChecker (ident n s args) kindIdent) = (s \<noteq> [])" for n s args
    by (simp add: attr_defs)
  have kc: "snd (checkTypeKind exChecker ?col kindIdent)"
    by (simp add: attr_defs)
  have col: "TColon (ident n s args) = []" for n s args by (simp add: ident_def)
  have dsc: "exStructAttrs (TIdent (ident n ''align'' args)) = Some attrAlign"
    "exStructAttrs (TIdent (ident n ''packed'' args)) = Some attrPacked"
    "exStructAttrs (TIdent (ident n ''bogus'' args)) = None" for n args
    by (simp_all add: attr_defs)
  have fresh: "\<not> recordedIn (noAttrs :: unit attrMaps) d" for d
    by (simp add: recordedIn_def noAttrs_def)
  have ty: "AttrType attrAlign = intAttr" "AttrType attrPacked = flagAttr"
    by (simp_all add: attrAlign_def attrPacked_def)
  have pt: "DTyp exStruct = ''struct''" "DName exStruct = ''S''" by (simp_all add: exStruct_def exDecl_def)
  note T = parseAttrs_first_return[where K = exChecker and descs = exStructAttrs and parent = exStruct
      and c = exComp]
  have "recordedIn ?res1 attrAlign \<or> (\<exists>a \<in> set ?pre. exStructAttrs (TIdent a) = Some attrAlign)"
    by (simp add: recordedIn_def)
  from T[where attr = "ident 3 ''align'' [intLit 3 8]" and post = "[ident 4 ''packed'' []]"
        and d = attrAlign, OF l, THEN conjunct2, THEN conjunct2, THEN conjunct2, THEN conjunct1,
        rule_format, OF _ col dsc(1) this]
  have dup: "parseAttrs exChecker exStructAttrs exStruct
       (?pre @ ident 3 ''align'' [intLit 3 8] # [ident 4 ''packed'' []]) exComp
     = (Some ?res1, error (exPos ''a.txt'' 3) ''duplicate struct S attribute align'' exComp)"
    by (simp add: k pt) (simp add: ident_def)
  from T[where attr = "ident 5 ''bogus'' []" and post = "[ident 6 ''packed'' []]",
        OF l0, THEN conjunct2, THEN conjunct2, THEN conjunct1, rule_format, OF _ col dsc(3)]
  have un: "parseAttrs exChecker exStructAttrs exStruct
       ([] @ ident 5 ''bogus'' [] # [ident 6 ''packed'' []]) exComp
     = (Some noAttrs, error (exPos ''a.txt'' 5) ''unknown struct S attribute bogus'' exComp)"
    by (simp add: k pt) (simp add: ident_def)
  note F = T[where d = attrPacked and attr = "ident 5 ''packed'' [intLit 5 1]"
        and post = "[ident 6 ''align'' [intLit 6 4]]",
        OF l0, THEN conjunct2, THEN conjunct2, THEN conjunct2, THEN conjunct2,
        rule_format, OF _ col dsc(2) fresh]
  have "TArgs (ident 5 ''packed'' [intLit 5 1]) \<noteq> []" by (simp add: ident_def)
  from F[THEN conjunct1, rule_format, OF _ ty(2) this]
  have fl: "parseAttrs exChecker exStructAttrs exStruct
       ([] @ ident 5 ''packed'' [intLit 5 1] # [ident 6 ''align'' [intLit 6 4]]) exComp
     = (None, error (exPos ''a.txt'' 5) ''packed attribute has args'' exComp)"
    by (simp add: k) (simp add: ident_def)
  have "TColon ?col = intLit 8 1 # []" by simp
  from T[where attr = ?col and post = "[ident 6 ''align'' [intLit 6 4]]",
        OF l0, THEN conjunct2, THEN conjunct1, rule_format, OF kc this]
  have cl: "parseAttrs exChecker exStructAttrs exStruct
       ([] @ ?col # [ident 6 ''align'' [intLit 6 4]]) exComp
     = (Some noAttrs, error (exPos ''a.txt'' 8) (''unexpected '' @ [CHR 0x27, CHR '':'', CHR 0x27]) exComp)"
    by (simp add: intLit_def)
  note I1 = T[where d = attrAlign and post = "[]" and attr = "ident 2 ''align'' []",
        OF l0, THEN conjunct2, THEN conjunct2, THEN conjunct2, THEN conjunct2,
        rule_format, OF _ col dsc(1) fresh,
        THEN conjunct2, THEN conjunct2, THEN conjunct2, THEN conjunct1, rule_format, OF _ ty(1)]
  note I2 = T[where d = attrAlign and post = "[]" and attr = "ident 2 ''align'' [strLit 7 ''x'']"
        and sz = "strLit 7 ''x''",
        OF l0, THEN conjunct2, THEN conjunct2, THEN conjunct2, THEN conjunct2,
        rule_format, OF _ col dsc(1) fresh,
        THEN conjunct2, THEN conjunct2, THEN conjunct2, THEN conjunct1, rule_format, OF _ ty(1)]
  have "length (TArgs (ident 2 ''align'' [])) \<noteq> 1" by (simp add: ident_def)
  from I1[THEN conjunct1, rule_format, OF _ this]
  have cnt: "parseAttrsLoop exChecker exStructAttrs (DTyp exStruct) (DName exStruct)
       ([] @ [ident 2 ''align'' []]) noAttrs exComp
     = Next ((noAttrs :: unit attrMaps)\<lparr>resInt := (resInt (noAttrs :: unit attrMaps))(attrAlign \<mapsto> 0)\<rparr>)
         (error (exPos ''a.txt'' 2) ''align attribute is expected to have 1 argument'' exComp)"
    by (simp add: k) (simp add: ident_def)
  have ar: "TArgs (ident 2 ''align'' [strLit 7 ''x'']) = [strLit 7 ''x'']" by (simp add: ident_def)
  have nk: "\<not> snd (checkTypeKind exChecker (strLit 7 ''x'') kindInt)"
    by (simp add: exChecker_def exCheckTypeKind_def strLit_def)
  from I2[THEN conjunct2, THEN conjunct1, rule_format, OF _ ar nk]
  have knd: "parseAttrsLoop exChecker exStructAttrs (DTyp exStruct) (DName exStruct)
       ([] @ [ident 2 ''align'' [strLit 7 ''x'']]) noAttrs exComp
     = Next ((noAttrs :: unit attrMaps)\<lparr>resInt := (resInt (noAttrs :: unit attrMaps))(attrAlign \<mapsto> 0)\<rparr>)
         (error (exPos ''a.txt'' 7) ''unexpected string x, expect int'' exComp)"
    by (simp add: k) (simp add: strLit_def exChecker_def exCheckTypeKind_def ident_def)
  from l dup un fl cl cnt knd show ?thesis by blast
qed

subsection \<open>Termination of variable-length determination\<close>

lemma onlyReports_refl [simp]: "onlyReports c c"
  by (simp add: onlyReports_def)

lemma onlyReports_error [simp]: "onlyReports c (error pos msg c)"
  by (simp add: onlyReports_def error_def)

lemma onlyReports_trans: "onlyReports c c1 \<Longrightarrow> onlyReports c1 c2 \<Longrightarrow> onlyReports c c2"
  unfolding onlyReports_def by (metis (no_types, lifting) compiler.surjective compiler.update_convs(3,4))

lemma onlyReports_fields:
  "onlyReports c c' \<Longrightarrow> structs c' = structs c \<and> structVarlen c' = structVarlen c \<and>
     resources c' = resources c \<and> typedefs c' = typedefs c"
  unfolding onlyReports_def by (metis (no_types, lifting) compiler.select_convs compiler.surjective compiler.update_convs(3,4))

lemma parseAttr_frame:
  "parseAttr K descs pt pn attr res c = Next res' c' \<or> parseAttr K descs pt pn attr res c = Return r c' \<Longrightarrow>
     onlyReports c c'"
  by (auto simp: parseAttr_def parseAttrIntArg_def parseAttrExprArg_def parseAttrStringArg_def
      case_prod_unfold
      split: if_splits list.splits option.splits attrDescType.splits)

lemma parseAttrsLoop_frame:
  "parseAttrsLoop K descs pt pn attrs res c = Next res' c' \<or>
   parseAttrsLoop K descs pt pn attrs res c = Return r c' \<Longrightarrow> onlyReports c c'"
proof (induction attrs arbitrary: res c)
  case Nil
  then show ?case by auto
next
  case (Cons a attrs)
  show ?case
  proof (cases "parseAttr K descs pt pn a res c")
    case (Next res1 c1)
    with parseAttr_frame[of K descs pt pn a res c res1 c1] have "onlyReports c c1" by simp
    moreover from Cons.prems Next have "onlyReports c1 c'"
      by (intro Cons.IH) simp
    ultimately show ?thesis by (rule onlyReports_trans)
  next
    case (Return r1 c1)
    with Cons.prems parseAttr_frame[of K descs pt pn a res c _ c1 r1] show ?thesis by auto
  qed
qed

lemma parseIntAttrs_frame: "onlyReports c (snd (parseIntAttrs K descs parent attrs c))"
  using parseAttrsLoop_frame[of K descs "DTyp parent" "DName parent" attrs noAttrs c]
  by (auto simp: parseIntAttrs_def parseAttrs_def case_prod_unfold split: step.splits)

lemma unionVarlen_frame: "onlyReports c (snd (unionVarlen K s c))"
  using parseIntAttrs_frame[of c K "unionAttrs K" "SInfo s" "Attrs s"]
  by (simp add: unionVarlen_def case_prod_unfold)

lemma varlen_dom_mono:
  fixes K :: "'e checker" and c :: "'x compiler"
  shows "structIsVarlen_fieldsVarlen_isVarlen_dom (Inl (K, name, c)) \<Longrightarrow>
           structIsVarlen K name c = Returns b c' \<Longrightarrow>
           structs c' = structs c \<and> (\<forall>n. structVarlen c n \<noteq> None \<longrightarrow> structVarlen c' n \<noteq> None)"
    and "structIsVarlen_fieldsVarlen_isVarlen_dom (Inr (Inl (K, flds, c))) \<Longrightarrow>
           fieldsVarlen K flds c = Returns b c' \<Longrightarrow>
           structs c' = structs c \<and> (\<forall>n. structVarlen c n \<noteq> None \<longrightarrow> structVarlen c' n \<noteq> None)"
    and "structIsVarlen_fieldsVarlen_isVarlen_dom (Inr (Inr (K, t, c))) \<Longrightarrow>
           isVarlen K t c = Returns b c' \<Longrightarrow>
           structs c' = structs c \<and> (\<forall>n. structVarlen c n \<noteq> None \<longrightarrow> structVarlen c' n \<noteq> None)"
proof (induction K name c and K flds c and K t c arbitrary: b c' and b c' and b c'
    rule: structIsVarlen_fieldsVarlen_isVarlen.pinduct)
  case (1 K name c)
  show ?case
  proof (cases "structVarlen c name")
    case (Some v)
    with "1.prems" "1.hyps" show ?thesis by (simp add: structIsVarlen.psimps)
  next
    case None
    from "1.prems" "1.hyps" None obtain s where s: "map_of (structs c) name = Some s"
      by (cases "map_of (structs c) name") (auto simp: structIsVarlen.psimps)
    let ?c1 = "snd (unionVarlen K s c)"
    have "onlyReports c ?c1" by (rule unionVarlen_frame)
    then have f1: "structs ?c1 = structs c" "structVarlen ?c1 = structVarlen c"
      using onlyReports_fields by blast+
    show ?thesis
    proof (cases "fst (unionVarlen K s c)")
      case True
      with "1.prems" "1.hyps" None s f1 show ?thesis
        by (auto simp: structIsVarlen.psimps)
    next
      case False
      from "1.prems" "1.hyps" None s False obtain v c2 where
        l: "fieldsVarlen K (Fields s) (?c1\<lparr>structVarlen := (structVarlen ?c1)(name \<mapsto> False)\<rparr>)
              = Returns v c2"
        and c': "c' = c2\<lparr>structVarlen := (structVarlen c2)(name \<mapsto> v)\<rparr>"
        by (auto simp: structIsVarlen.psimps split: returned.splits)
      from "1.IH"[OF None s False l] f1 c'
      show ?thesis by auto
    qed
  qed
next
  case (2 K c)
  then show ?case by (simp add: fieldsVarlen.psimps)
next
  case (3 K fld flds c)
  show ?case
  proof (cases "hasIfAttr K fld")
    case True
    with "3.prems" "3.hyps" show ?thesis by (simp add: fieldsVarlen.psimps)
  next
    case False
    from "3.prems" "3.hyps" False obtain v c1 where
      i: "isVarlen K (FldType fld) c = Returns v c1"
      by (cases "isVarlen K (FldType fld) c") (auto simp: fieldsVarlen.psimps)
    from "3.IH"(1)[OF False i]
    have a: "structs c1 = structs c" "\<forall>n. structVarlen c n \<noteq> None \<longrightarrow> structVarlen c1 n \<noteq> None"
      by auto
    show ?thesis
    proof (cases v)
      case True
      with "3.prems" "3.hyps" False i a show ?thesis by (simp add: fieldsVarlen.psimps)
    next
      case v: False
      with "3.prems" "3.hyps" False i have "fieldsVarlen K flds c1 = Returns b c'"
        by (simp add: fieldsVarlen.psimps)
      from "3.IH"(2)[OF False i v this] a show ?thesis by auto
    qed
  qed
next
  case (4 K t c)
  show ?case
  proof (cases "getTypeDesc K c t = Some typeStruct")
    case True
    with "4.prems" "4.hyps" have "structIsVarlen K (TIdent t) c = Returns b c'"
      by (simp add: isVarlen.psimps)
    from "4.IH"(1)[OF True this] show ?thesis .
  next
    case False
    show ?thesis
    proof (cases "typeVarlen K t")
      case NeverVarlen
      with "4.prems" "4.hyps" False show ?thesis by (simp add: isVarlen.psimps)
    next
      case AlwaysVarlen
      with "4.prems" "4.hyps" False show ?thesis by (simp add: isVarlen.psimps)
    next
      case (VarlenOfArg n)
      show ?thesis
      proof (cases "n < length (TArgs t)")
        case True
        with "4.prems" "4.hyps" False VarlenOfArg
        have "isVarlen K (TArgs t ! n) c = Returns b c'" by (simp add: isVarlen.psimps)
        from "4.IH"(2)[OF False VarlenOfArg True this] show ?thesis .
      next
        case n: False
        with "4.prems" "4.hyps" False VarlenOfArg show ?thesis by (simp add: isVarlen.psimps)
      qed
    qed
  qed
qed

lemma pending_mono:
  assumes "structs c' = structs c"
    and "\<forall>n. structVarlen c n \<noteq> None \<longrightarrow> structVarlen c' n \<noteq> None"
  shows "pending c' \<le> pending c"
  unfolding pending_def using assms by (intro card_mono) (auto simp: dom_def)

lemma pending_less:
  assumes "map_of (structs c) name = Some s" and "structVarlen c name = None"
    and "structs c1 = structs c" and "structVarlen c1 = structVarlen c"
  shows "pending (c1\<lparr>structVarlen := (structVarlen c1)(name \<mapsto> v)\<rparr>) < pending c"
proof -
  from assms(1) have "name \<in> fst ` set (structs c)" by (metis map_of_eq_None_iff option.distinct(1))
  with assms show ?thesis
    unfolding pending_def by (intro psubset_card_mono) (auto simp: dom_def)
qed

lemma size_arg: "n < length (TArgs t) \<Longrightarrow> size (TArgs t ! n) < size t"
proof (cases t)
  case (Type p v i h s col args)
  assume "n < length (TArgs t)"
  with Type have "args ! n \<in> set args" by simp
  then have "size (args ! n) \<le> size_list size args" by (rule size_list_estimation') simp
  with Type show ?thesis by simp
qed

termination structIsVarlen
proof (relation "inv_image (less_than <*lex*> less_than <*lex*> less_than)
     (\<lambda>x. case x of
        Inl (K, name, c) \<Rightarrow> (pending c, 0::nat, 0::nat)
      | Inr (Inl (K, flds, c)) \<Rightarrow> (pending c, 2, length flds)
      | Inr (Inr (K, t, c)) \<Rightarrow> (pending c, 1, size t))", goal_cases)
  case 1
  show ?case by (intro wf_inv_image wf_lex_prod wf_less_than)
next
  case (2 K name c s)
  have "onlyReports c (snd (unionVarlen K s c))" by (rule unionVarlen_frame)
  then have "structs (snd (unionVarlen K s c)) = structs c"
    "structVarlen (snd (unionVarlen K s c)) = structVarlen c"
    using onlyReports_fields by blast+
  from pending_less[OF 2(2) 2(1) this] show ?case by simp
next
  case 3
  show ?case by simp
next
  case (4 K fld flds c v c1)
  from varlen_dom_mono(3)[OF 4(4) 4(2)] have "pending c1 \<le> pending c"
    by (intro pending_mono) auto
  then show ?case by auto
next
  case 5
  show ?case by simp
next
  case (6 K t c n)
  then show ?case by (simp add: size_arg)
qed

subsection \<open>The memo table of \<open>structIsVarlen\<close>\<close>

lemma sameTables_refl [simp]: "sameTables c c"
  by (simp add: sameTables_def)

lemma sameTables_trans: "sameTables c c1 \<Longrightarrow> sameTables c1 c2 \<Longrightarrow> sameTables c c2"
  by (simp add: sameTables_def)

lemma keepsMemo_refl [simp]: "keepsMemo c c"
  by (simp add: keepsMemo_def)

lemma keepsMemo_trans: "keepsMemo c c1 \<Longrightarrow> keepsMemo c1 c2 \<Longrightarrow> keepsMemo c c2"
  by (simp add: keepsMemo_def)

lemma onlyReports_sameTables: "onlyReports c c' \<Longrightarrow> sameTables c c' \<and> structVarlen c' = structVarlen c"
  using onlyReports_fields[of c c'] by (simp add: sameTables_def)

lemma getTypeDesc_sameTables: "sameTables c c' \<Longrightarrow> getTypeDesc K c' t = getTypeDesc K c t"
  by (simp add: sameTables_def getTypeDesc_def)

lemma sameTables_memo [simp]: "sameTables c (c'\<lparr>structVarlen := m\<rparr>) = sameTables c c'"
  by (simp add: sameTables_def)

lemma varlen_frame:
  fixes K :: "'e checker" and c :: "'x compiler"
  shows "(case structIsVarlen K name c of
            Returns b c' \<Rightarrow> sameTables c c' \<and> keepsMemo c c' \<and> structVarlen c' name = Some b
          | Panics \<Rightarrow> structVarlen c name = None \<and> map_of (structs c) name = None)"
    and "(case fieldsVarlen K flds c of
            Returns b c' \<Rightarrow> sameTables c c' \<and> keepsMemo c c'
          | Panics \<Rightarrow> False)"
    and "(case isVarlen K t c of
            Returns b c' \<Rightarrow> sameTables c c' \<and> keepsMemo c c'
          | Panics \<Rightarrow> False)"
proof (induction K name c and K flds c and K t c rule: structIsVarlen_fieldsVarlen_isVarlen.induct)
  case (1 K name c)
  show ?case
  proof (cases "structVarlen c name")
    case (Some v)
    then show ?thesis by simp
  next
    case None
    show ?thesis
    proof (cases "map_of (structs c) name")
      case n: None
      with None show ?thesis by simp
    next
      case (Some s)
      let ?c1 = "snd (unionVarlen K s c)"
      from onlyReports_sameTables[OF unionVarlen_frame[of c K s]]
      have f1: "sameTables c ?c1" "structVarlen ?c1 = structVarlen c" by auto
      show ?thesis
      proof (cases "fst (unionVarlen K s c)")
        case True
        with None Some f1 show ?thesis by (simp add: keepsMemo_def)
      next
        case False
        let ?c2 = "?c1\<lparr>structVarlen := (structVarlen ?c1)(name \<mapsto> False)\<rparr>"
        show ?thesis
        proof (cases "fieldsVarlen K (Fields s) ?c2")
          case (Returns v c3)
          with "1.IH"[OF None Some False] have "sameTables ?c2 c3" "keepsMemo ?c2 c3" by auto
          with f1 None have "sameTables c c3" "keepsMemo c (c3\<lparr>structVarlen := (structVarlen c3)(name \<mapsto> v)\<rparr>)"
            by (auto simp: sameTables_def keepsMemo_def)
          with None Some False Returns show ?thesis by simp
        next
          case Panics
          with "1.IH"[OF None Some False] show ?thesis by simp
        qed
      qed
    qed
  qed
next
  case (2 K c)
  show ?case by simp
next
  case (3 K fld flds c)
  show ?case
  proof (cases "hasIfAttr K fld")
    case True
    then show ?thesis by simp
  next
    case False
    show ?thesis
    proof (cases "isVarlen K (FldType fld) c")
      case (Returns v c1)
      with "3.IH"(1)[OF False] have a: "sameTables c c1" "keepsMemo c c1" by auto
      show ?thesis
      proof (cases v)
        case True
        with False Returns a show ?thesis by simp
      next
        case v: False
        from "3.IH"(2)[OF False Returns v] a False Returns v show ?thesis
          by (auto split: returned.splits intro: sameTables_trans keepsMemo_trans)
      qed
    next
      case Panics
      with "3.IH"(1)[OF False] show ?thesis by simp
    qed
  qed
next
  case (4 K t c)
  show ?case
  proof (cases "getTypeDesc K c t = Some typeStruct")
    case True
    then have "map_of (structs c) (TIdent t) \<noteq> None"
      by (auto simp: getTypeDesc_def split: if_splits)
    with "4.IH"(1)[OF True] True show ?thesis by (auto split: returned.splits)
  next
    case False
    show ?thesis
    proof (cases "typeVarlen K t")
      case (VarlenOfArg n)
      with "4.IH"(2)[OF False VarlenOfArg] False show ?thesis by simp
    qed (use False in simp_all)
  qed
qed

declare structIsVarlen.simps [simp del] isVarlen.simps [simp del]

text \<open>
  Claim C5. \<open>structIsVarlen\<close> is a total function (its recursion is bounded by the
  structs without a memo entry), and for a name of the struct table it returns a boolean
  and leaves that boolean in the memo table. A name with a memo entry gets the entry
  back and the state is not touched. A name without one, when the union attribute does
  not decide, is computed by the loop over the fields started on the memo table with
  \<open>false\<close> under the name, and the result of the loop is written over that entry. An
  entry, once a call has returned, outlives every later call, for any name, and is what
  a later call for its name returns.
\<close>

theorem structIsVarlen_memo:
  fixes K :: "'e checker" and c :: "'x compiler"
  shows
    "(map_of (structs c) name = Some s \<longrightarrow>
        (\<exists>b c'. structIsVarlen K name c = Returns b c' \<and> structVarlen c' name = Some b \<and>
                 structIsVarlen K name c' = Returns b c'))
   \<and> (structVarlen c name = Some v \<longrightarrow> structIsVarlen K name c = Returns v c)
   \<and> (structVarlen c name = None \<longrightarrow> map_of (structs c) name = Some s \<longrightarrow>
        \<not> fst (unionVarlen K s c) \<longrightarrow>
        structIsVarlen K name c =
          (case fieldsVarlen K (Fields s)
                  ((snd (unionVarlen K s c))\<lparr>structVarlen :=
                     (structVarlen (snd (unionVarlen K s c)))(name \<mapsto> False)\<rparr>) of
             Returns varlen c2 \<Rightarrow>
               Returns varlen (c2\<lparr>structVarlen := (structVarlen c2)(name \<mapsto> varlen)\<rparr>)
           | Panics \<Rightarrow> Panics))
   \<and> (structVarlen c name = Some v \<longrightarrow> structIsVarlen K other c = Returns b c' \<longrightarrow>
        structVarlen c' name = Some v \<and> structIsVarlen K name c' = Returns v c')"
proof (intro conjI impI)
  assume s: "map_of (structs c) name = Some s"
  from varlen_frame(1)[where K=K and name=name and c=c] s obtain b c' where
    r: "structIsVarlen K name c = Returns b c'" and m: "structVarlen c' name = Some b"
    by (cases "structIsVarlen K name c") auto
  from m have "structIsVarlen K name c' = Returns b c'" by (simp add: structIsVarlen.simps)
  with r m show "\<exists>b c'. structIsVarlen K name c = Returns b c' \<and> structVarlen c' name = Some b \<and>
                 structIsVarlen K name c' = Returns b c'" by blast
next
  assume "structVarlen c name = Some v"
  then show "structIsVarlen K name c = Returns v c" by (simp add: structIsVarlen.simps)
next
  assume "structVarlen c name = None" "map_of (structs c) name = Some s" "\<not> fst (unionVarlen K s c)"
  then show "structIsVarlen K name c =
          (case fieldsVarlen K (Fields s)
                  ((snd (unionVarlen K s c))\<lparr>structVarlen :=
                     (structVarlen (snd (unionVarlen K s c)))(name \<mapsto> False)\<rparr>) of
             Returns varlen c2 \<Rightarrow>
               Returns varlen (c2\<lparr>structVarlen := (structVarlen c2)(name \<mapsto> varlen)\<rparr>)
           | Panics \<Rightarrow> Panics)"
    by (simp add: structIsVarlen.simps)
next
  assume m: "structVarlen c name = Some v" and r: "structIsVarlen K other c = Returns b c'"
  from varlen_frame(1)[where K=K and name=other and c=c] r have "keepsMemo c c'" by simp
  with m show "structVarlen c' name = Some v" by (simp add: keepsMemo_def)
  then show "structIsVarlen K name c' = Returns v c'" by (simp add: structIsVarlen.simps)
qed

lemmas varlen_ex_defs = selfComp_def selfStruct_def field_def exComp_def createCompiler_def
  exPackage_def exTarget_def ident_def exDecl_def exPos_def exChecker_def exRule_def
  unionVarlen_def hasIfAttr_def getTypeDesc_def structIsVarlen.simps isVarlen.simps exIf_def

theorem structIsVarlen_memo_witness:
  "map_of (structs selfComp) ''S'' = Some selfStruct
   \<and> structVarlen selfComp ''S'' = None
   \<and> \<not> fst (unionVarlen exChecker selfStruct selfComp)
   \<and> structIsVarlen exChecker ''S'' selfComp = Returns False (selfComp\<lparr>structVarlen := [''S'' \<mapsto> False]\<rparr>)
   \<and> structIsVarlen exChecker ''S'' (selfComp\<lparr>structVarlen := [''S'' \<mapsto> False]\<rparr>)
       = Returns False (selfComp\<lparr>structVarlen := [''S'' \<mapsto> False]\<rparr>)"
proof -
  have a: "map_of (structs selfComp) ''S'' = Some selfStruct" by (simp add: selfComp_def)
  have n: "structVarlen selfComp ''S'' = None" by (simp add: selfComp_def exComp_def createCompiler_def)
  have u: "\<not> fst (unionVarlen exChecker selfStruct selfComp)" by (simp add: unionVarlen_def selfStruct_def)
  have r: "structIsVarlen exChecker ''S'' selfComp = Returns False (selfComp\<lparr>structVarlen := [''S'' \<mapsto> False]\<rparr>)"
    by (simp add: varlen_ex_defs)
  note T = structIsVarlen_memo[where K = exChecker and c = selfComp and name = "''S''" and s = selfStruct]
  from T[THEN conjunct1, rule_format, OF a] r
  have "structIsVarlen exChecker ''S'' (selfComp\<lparr>structVarlen := [''S'' \<mapsto> False]\<rparr>)
       = Returns False (selfComp\<lparr>structVarlen := [''S'' \<mapsto> False]\<rparr>)" by auto
  with a n u r show ?thesis by blast
qed

subsection \<open>What \<open>structIsVarlen\<close> returns\<close>

lemma parseAttr_state_free:
  "stepResult (parseAttr K descs pt pn attr res c) = stepResult (parseAttr K descs pt pn attr res c0)"
  by (auto simp: parseAttr_def parseAttrIntArg_def parseAttrExprArg_def parseAttrStringArg_def
      case_prod_unfold
      split: if_splits list.splits option.splits attrDescType.splits)

lemma parseAttrsLoop_state_free:
  "stepResult (parseAttrsLoop K descs pt pn attrs res c) =
   stepResult (parseAttrsLoop K descs pt pn attrs res c0)"
proof (induction attrs arbitrary: res c c0)
  case Nil
  show ?case by simp
next
  case (Cons a attrs)
  from parseAttr_state_free[of K descs pt pn a res c c0] Cons.IH show ?case
    by (cases "parseAttr K descs pt pn a res c"; cases "parseAttr K descs pt pn a res c0") auto
qed

lemma unionVarlen_state_free: "fst (unionVarlen K s c) = fst (unionVarlen K s c0)"
proof -
  have "fst (parseAttrs K descs parent attrs c) = fst (parseAttrs K descs parent attrs c0)"
    for descs parent attrs
    using parseAttrsLoop_state_free[of K descs "DTyp parent" "DName parent" attrs noAttrs c c0]
    by (cases "parseAttrsLoop K descs (DTyp parent) (DName parent) attrs noAttrs c";
        cases "parseAttrsLoop K descs (DTyp parent) (DName parent) attrs noAttrs c0")
       (auto simp: parseAttrs_def)
  then show ?thesis
    by (simp add: unionVarlen_def parseIntAttrs_def case_prod_unfold)
qed

lemma settled_mono: "settled K c X t \<Longrightarrow> X \<subseteq> Y \<Longrightarrow> settled K c Y t"
  by (induction rule: settled.induct) (auto intro: settled.intros)

lemma closedAt_mono: "closedAt K c X n \<Longrightarrow> X \<subseteq> Y \<Longrightarrow> closedAt K c Y n"
  unfolding closedAt_def by (meson settled_mono)

lemma closed_not_varlen:
  assumes cl: "\<forall>n \<in> X. closedAt K c X n"
  shows "varlenStruct K c name \<Longrightarrow> name \<notin> X"
    and "varlenType K c t \<Longrightarrow> \<not> settled K c X t"
proof (induction rule: varlenStruct_varlenType.inducts)
  case (byUnionAttr name s)
  with cl show ?case by (auto simp: closedAt_def)
next
  case (byIfAttr name s fld)
  with cl show ?case by (auto simp: closedAt_def)
next
  case (byField name s fld)
  with cl show ?case by (auto simp: closedAt_def)
next
  case (ofStruct t)
  then show ?case by (auto elim: settled.cases)
next
  case (always t)
  then show ?case by (auto elim: settled.cases)
next
  case (ofArg t n)
  then show ?case by (auto elim: settled.cases)
qed

lemma structIsVarlen_cases:
  assumes "structIsVarlen K name c = Returns b c'"
  obtains (hit) "structVarlen c name = Some b" "c' = c"
  | (union) s where "structVarlen c name = None" "map_of (structs c) name = Some s"
      "fst (unionVarlen K s c)" "b"
      "c' = (snd (unionVarlen K s c))\<lparr>structVarlen := (structVarlen (snd (unionVarlen K s c)))(name \<mapsto> True)\<rparr>"
  | (fields) s c3 where "structVarlen c name = None" "map_of (structs c) name = Some s"
      "\<not> fst (unionVarlen K s c)"
      "fieldsVarlen K (Fields s)
         ((snd (unionVarlen K s c))\<lparr>structVarlen := (structVarlen (snd (unionVarlen K s c)))(name \<mapsto> False)\<rparr>)
         = Returns b c3"
      "c' = c3\<lparr>structVarlen := (structVarlen c3)(name \<mapsto> b)\<rparr>"
  using assms[unfolded structIsVarlen.simps[of K name c]]
  by (auto split: option.splits if_splits returned.splits)

lemma fieldsVarlen_cases:
  assumes "fieldsVarlen K (fld # flds) c = Returns b c'"
  obtains (ifAttr) "hasIfAttr K fld" "b" "c' = c"
  | (varlen) "\<not> hasIfAttr K fld" "isVarlen K (FldType fld) c = Returns True c'" "b"
  | (rest) c1 where "\<not> hasIfAttr K fld" "isVarlen K (FldType fld) c = Returns False c1"
      "fieldsVarlen K flds c1 = Returns b c'"
  using assms
  by (auto split: if_splits returned.splits)

lemma isVarlen_cases:
  assumes "isVarlen K t c = Returns b c'"
  obtains (struct) "getTypeDesc K c t = Some typeStruct" "structIsVarlen K (TIdent t) c = Returns b c'"
  | (never) "getTypeDesc K c t \<noteq> Some typeStruct" "typeVarlen K t = NeverVarlen" "\<not> b" "c' = c"
  | (always) "getTypeDesc K c t \<noteq> Some typeStruct" "typeVarlen K t = AlwaysVarlen" "b" "c' = c"
  | (arg) n where "getTypeDesc K c t \<noteq> Some typeStruct" "typeVarlen K t = VarlenOfArg n"
      "n < length (TArgs t)" "isVarlen K (TArgs t ! n) c = Returns b c'"
  | (noArg) n where "getTypeDesc K c t \<noteq> Some typeStruct" "typeVarlen K t = VarlenOfArg n"
      "\<not> n < length (TArgs t)" "\<not> b" "c' = c"
  using assms[unfolded isVarlen.simps[of K t c]]
  by (auto split: if_splits varlenRule.splits)

lemma varlen_sound:
  fixes K :: "'e checker" and c :: "'x compiler"
  shows "sameTables c0 c \<Longrightarrow> memoSound K c0 c \<Longrightarrow> structIsVarlen K name c = Returns b c' \<Longrightarrow>
           memoSound K c0 c' \<and> (b \<longrightarrow> varlenStruct K c0 name)"
    and "sameTables c0 c \<Longrightarrow> memoSound K c0 c \<Longrightarrow> fieldsVarlen K flds c = Returns b c' \<Longrightarrow>
           memoSound K c0 c' \<and>
           (b \<longrightarrow> (\<exists>fld \<in> set flds. hasIfAttr K fld \<or> varlenType K c0 (FldType fld)))"
    and "sameTables c0 c \<Longrightarrow> memoSound K c0 c \<Longrightarrow> isVarlen K t c = Returns b c' \<Longrightarrow>
           memoSound K c0 c' \<and> (b \<longrightarrow> varlenType K c0 t)"
proof (induction K name c and K flds c and K t c arbitrary: b c' and b c' and b c'
    rule: structIsVarlen_fieldsVarlen_isVarlen.induct)
  case (1 K name c)
  from "1.prems"(3) show ?case
  proof (cases rule: structIsVarlen_cases)
    case hit
    with "1.prems" show ?thesis by (auto simp: memoSound_def)
  next
    case (union s)
    let ?c1 = "snd (unionVarlen K s c)"
    from onlyReports_sameTables[OF unionVarlen_frame[of c K s]]
    have f1: "structVarlen ?c1 = structVarlen c" by simp
    from "1.prems"(1) union(2) have s0: "map_of (structs c0) name = Some s"
      by (simp add: sameTables_def)
    from union(3) have "fst (unionVarlen K s c0)" using unionVarlen_state_free[of K s c c0] by simp
    with s0 have v: "varlenStruct K c0 name" by (rule byUnionAttr)
    with "1.prems"(2) union(5) f1 have "memoSound K c0 c'" by (simp add: memoSound_def)
    with v show ?thesis by simp
  next
    case (fields s c3)
    let ?c1 = "snd (unionVarlen K s c)"
    let ?c2 = "?c1\<lparr>structVarlen := (structVarlen ?c1)(name \<mapsto> False)\<rparr>"
    from onlyReports_sameTables[OF unionVarlen_frame[of c K s]]
    have f1: "sameTables c ?c1" "structVarlen ?c1 = structVarlen c" by auto
    from "1.prems"(1) fields(2) have s0: "map_of (structs c0) name = Some s"
      by (simp add: sameTables_def)
    have t2: "sameTables c0 ?c2" using "1.prems"(1) f1(1) by (simp add: sameTables_def)
    have m2: "memoSound K c0 ?c2" using "1.prems"(2) f1(2) by (simp add: memoSound_def)
    from "1.IH"[OF fields(1,2,3) t2 m2 fields(4)]
    have m3: "memoSound K c0 c3"
      and e: "b \<longrightarrow> (\<exists>fld \<in> set (Fields s). hasIfAttr K fld \<or> varlenType K c0 (FldType fld))"
      by auto
    have v: "varlenStruct K c0 name" if b
      using e that s0 by (auto intro: byIfAttr byField)
    with m3 fields(5) have "memoSound K c0 c'" by (auto simp: memoSound_def)
    with v show ?thesis by simp
  qed
next
  case (2 K c)
  then show ?case by simp
next
  case (3 K fld flds c)
  from "3.prems"(3) show ?case
  proof (cases rule: fieldsVarlen_cases)
    case ifAttr
    with "3.prems" show ?thesis by simp
  next
    case varlen
    from "3.IH"(1)[OF varlen(1) "3.prems"(1,2) varlen(2)] show ?thesis by simp
  next
    case (rest c1)
    from "3.IH"(1)[OF rest(1) "3.prems"(1,2) rest(2)] have m1: "memoSound K c0 c1" by simp
    from varlen_frame(3)[where K=K and t="FldType fld" and c=c] rest(2)
    have "sameTables c c1" by simp
    with "3.prems"(1) have t1: "sameTables c0 c1" by (rule sameTables_trans)
    from "3.IH"(2)[OF rest(1,2) _ t1 m1 rest(3)] show ?thesis by auto
  qed
next
  case (4 K t c)
  from "4.prems"(1) have g: "getTypeDesc K c t = getTypeDesc K c0 t"
    by (rule getTypeDesc_sameTables)
  from "4.prems"(3) show ?case
  proof (cases rule: isVarlen_cases)
    case struct
    from "4.IH"(1)[OF struct(1) "4.prems"(1,2) struct(2)] struct(1) g show ?thesis
      by (auto intro: ofStruct)
  next
    case never
    with "4.prems" show ?thesis by simp
  next
    case always
    with "4.prems" g show ?thesis by (auto intro: varlenStruct_varlenType.always)
  next
    case (arg n)
    from "4.IH"(2)[OF arg(1,2,3) "4.prems"(1,2) arg(4)] arg(1,2,3) g show ?thesis
      by (auto intro: ofArg)
  next
    case (noArg n)
    with "4.prems" show ?thesis by simp
  qed
qed

lemma memoFalse_mono: "keepsMemo c c' \<Longrightarrow> memoFalse c \<subseteq> memoFalse c'"
  by (auto simp: keepsMemo_def memoFalse_def)

lemma varlen_closed:
  fixes K :: "'e checker" and c :: "'x compiler"
  shows "sameTables c0 c \<Longrightarrow> structIsVarlen K name c = Returns False c' \<Longrightarrow>
           name \<in> memoFalse c' \<and>
           (\<forall>n \<in> memoFalse c' - memoFalse c. closedAt K c0 (memoFalse c') n)"
    and "sameTables c0 c \<Longrightarrow> fieldsVarlen K flds c = Returns False c' \<Longrightarrow>
           (\<forall>fld \<in> set flds. \<not> hasIfAttr K fld \<and> settled K c0 (memoFalse c') (FldType fld)) \<and>
           (\<forall>n \<in> memoFalse c' - memoFalse c. closedAt K c0 (memoFalse c') n)"
    and "sameTables c0 c \<Longrightarrow> isVarlen K t c = Returns False c' \<Longrightarrow>
           settled K c0 (memoFalse c') t \<and>
           (\<forall>n \<in> memoFalse c' - memoFalse c. closedAt K c0 (memoFalse c') n)"
proof (induction K name c and K flds c and K t c arbitrary: c' and c' and c'
    rule: structIsVarlen_fieldsVarlen_isVarlen.induct)
  case (1 K name c)
  from "1.prems"(2) show ?case
  proof (cases rule: structIsVarlen_cases)
    case hit
    then show ?thesis by (simp add: memoFalse_def)
  next
    case (union s)
    then show ?thesis by simp
  next
    case (fields s c3)
    let ?c1 = "snd (unionVarlen K s c)"
    let ?c2 = "?c1\<lparr>structVarlen := (structVarlen ?c1)(name \<mapsto> False)\<rparr>"
    from onlyReports_sameTables[OF unionVarlen_frame[of c K s]]
    have f1: "sameTables c ?c1" "structVarlen ?c1 = structVarlen c" by auto
    from "1.prems"(1) fields(2) have s0: "map_of (structs c0) name = Some s"
      by (simp add: sameTables_def)
    have t2: "sameTables c0 ?c2" using "1.prems"(1) f1(1) by (simp add: sameTables_def)
    have mf2: "memoFalse ?c2 = insert name (memoFalse c)"
      using f1(2) by (auto simp: memoFalse_def)
    from "1.IH"[OF fields(1,2,3) t2 fields(4)]
    have flds: "\<forall>fld \<in> set (Fields s). \<not> hasIfAttr K fld \<and> settled K c0 (memoFalse c3) (FldType fld)"
      and new: "\<forall>n \<in> memoFalse c3 - memoFalse ?c2. closedAt K c0 (memoFalse c3) n"
      by auto
    from varlen_frame(2)[where K=K and flds="Fields s" and c="?c2"] fields(4)
    have "keepsMemo ?c2 c3" by simp
    then have sub: "memoFalse ?c2 \<subseteq> memoFalse c3" by (rule memoFalse_mono)
    with mf2 have n3: "name \<in> memoFalse c3" by auto
    with fields(5) have mf': "memoFalse c' = memoFalse c3" by (auto simp: memoFalse_def)
    have "\<not> fst (unionVarlen K s c0)"
      using fields(3) unionVarlen_state_free[of K s c c0] by simp
    with flds s0 have cn: "closedAt K c0 (memoFalse c3) name" by (simp add: closedAt_def)
    have "\<forall>n \<in> memoFalse c3 - memoFalse c. closedAt K c0 (memoFalse c3) n"
      using new cn mf2 by auto
    with n3 mf' show ?thesis by simp
  qed
next
  case (2 K c)
  then show ?case by simp
next
  case (3 K fld flds c)
  from "3.prems"(2) show ?case
  proof (cases rule: fieldsVarlen_cases)
    case ifAttr
    then show ?thesis by simp
  next
    case varlen
    then show ?thesis by simp
  next
    case (rest c1)
    from "3.IH"(1)[OF rest(1) "3.prems"(1) rest(2)]
    have a: "settled K c0 (memoFalse c1) (FldType fld)"
      "\<forall>n \<in> memoFalse c1 - memoFalse c. closedAt K c0 (memoFalse c1) n" by auto
    from varlen_frame(3)[where K=K and t="FldType fld" and c=c] rest(2)
    have "sameTables c c1" by simp
    with "3.prems"(1) have t1: "sameTables c0 c1" by (rule sameTables_trans)
    from "3.IH"(2)[OF rest(1,2) _ t1 rest(3)]
    have b: "\<forall>f \<in> set flds. \<not> hasIfAttr K f \<and> settled K c0 (memoFalse c') (FldType f)"
      "\<forall>n \<in> memoFalse c' - memoFalse c1. closedAt K c0 (memoFalse c') n" by auto
    from varlen_frame(2)[where K=K and flds=flds and c=c1] rest(3)
    have "keepsMemo c1 c'" by simp
    then have sub: "memoFalse c1 \<subseteq> memoFalse c'" by (rule memoFalse_mono)
    have "settled K c0 (memoFalse c') (FldType fld)" using a(1) sub by (rule settled_mono)
    moreover have "closedAt K c0 (memoFalse c') n" if "n \<in> memoFalse c' - memoFalse c" for n
    proof (cases "n \<in> memoFalse c1")
      case True
      with that a(2) have "closedAt K c0 (memoFalse c1) n" by simp
      then show ?thesis using sub by (rule closedAt_mono)
    next
      case False
      with that b(2) show ?thesis by simp
    qed
    ultimately show ?thesis using rest(1) b(1) by simp
  qed
next
  case (4 K t c)
  from "4.prems"(1) have g: "getTypeDesc K c t = getTypeDesc K c0 t"
    by (rule getTypeDesc_sameTables)
  from "4.prems"(2) show ?case
  proof (cases rule: isVarlen_cases)
    case struct
    from "4.IH"(1)[OF struct(1) "4.prems"(1) struct(2)] struct(1) g show ?thesis
      by (auto intro: settled.inSet)
  next
    case never
    with g show ?thesis by (auto intro: settled.never)
  next
    case always
    then show ?thesis by simp
  next
    case (arg n)
    from "4.IH"(2)[OF arg(1,2,3) "4.prems"(1) arg(4)] arg(1,2,3) g show ?thesis
      by (auto intro: settled.arg)
  next
    case (noArg n)
    with g show ?thesis by (auto intro: settled.noArg)
  qed
qed

lemma fieldsVarlen_ifAttr:
  "\<exists>fld \<in> set flds. hasIfAttr K fld \<Longrightarrow> \<exists>c'. fieldsVarlen K flds c = Returns True c'"
proof (induction flds arbitrary: c)
  case Nil
  then show ?case by simp
next
  case (Cons fld flds)
  show ?case
  proof (cases "hasIfAttr K fld")
    case True
    then show ?thesis by simp
  next
    case False
    with Cons.prems have rest: "\<exists>f \<in> set flds. hasIfAttr K f" by simp
    from varlen_frame(3)[where K=K and t="FldType fld" and c=c] obtain v c1 where
      i: "isVarlen K (FldType fld) c = Returns v c1"
      by (cases "isVarlen K (FldType fld) c") auto
    from Cons.IH[OF rest, of c1] False i show ?thesis by (cases v) auto
  qed
qed

lemma fieldsVarlen_fixed:
  "\<forall>fld \<in> set flds. \<not> hasIfAttr K fld \<and> getTypeDesc K c (FldType fld) \<noteq> Some typeStruct \<and>
      typeVarlen K (FldType fld) = NeverVarlen \<Longrightarrow>
   fieldsVarlen K flds c = Returns False c"
  by (induction flds) (auto simp: isVarlen.simps)



lemmas plain_defs = plainComp_def structP_def structQ_def unionU_def field_def exComp_def
  createCompiler_def exPackage_def exTarget_def ident_def exDecl_def exPos_def exChecker_def
  exRule_def exCheckTypeKind_def exVarlen_def exIf_def
  unionVarlen_def parseIntAttrs_def parseAttrs_def parseAttr_def noAttrs_def lookupInt_def
  hasIfAttr_def getTypeDesc_def structIsVarlen.simps isVarlen.simps


end
